theory Spec2Isabelle
  imports Main
begin

section \<open>Errors and file metadata\<close>

text \<open>
  A Go \<^verbatim>\<open>error\<close> value is modelled by its kind and its message; two errors are the
  same value when both agree. A \<^verbatim>\<open>nil\<close> error is \<open>None\<close> of \<open>error option\<close>.
  \<^verbatim>\<open>os.IsNotExist\<close> and \<^verbatim>\<open>os.IsExist\<close> classify an error by its kind and are
  false on \<^verbatim>\<open>nil\<close>. As in the Go library, \<^verbatim>\<open>os.IsExist\<close> holds of the kinds
  \<^verbatim>\<open>EEXIST\<close> and \<^verbatim>\<open>ENOTEMPTY\<close>, and \<^verbatim>\<open>os.IsNotExist\<close> of the kind \<^verbatim>\<open>ENOENT\<close> only.
\<close>

datatype error =
    ErrNotExist string
  | ErrExist string
  | ErrNotEmpty string
  | ErrOther string

fun os_IsNotExist :: "error option \<Rightarrow> bool" where
  "os_IsNotExist (Some (ErrNotExist m)) = True"
| "os_IsNotExist e = False"

fun os_IsExist :: "error option \<Rightarrow> bool" where
  "os_IsExist (Some (ErrExist m)) = True"
| "os_IsExist (Some (ErrNotEmpty m)) = True"
| "os_IsExist e = False"

text \<open>The part of \<^verbatim>\<open>os.FileInfo\<close> that the package reads: \<^verbatim>\<open>Name()\<close> and \<^verbatim>\<open>IsDir()\<close>.\<close>

record FileInfo =
  Name :: string
  IsDir :: bool

type_synonym FileMode = nat

definition O_RDONLY :: int where
  "O_RDONLY = 0"

section \<open>The library functions \<^verbatim>\<open>strings.Split\<close>, \<^verbatim>\<open>path.Clean\<close> and \<^verbatim>\<open>path.Join\<close>\<close>

text \<open>
  Modelled from the documentation of the Go standard library: these functions are called
  by the package and are not part of it. \<^verbatim>\<open>strings.Split(s, sep)\<close> is taken for a
  separator of one character, the only way the package calls it: the result always has
  one element more than \<open>s\<close> has separators.
\<close>

fun strings_Split :: "string \<Rightarrow> char \<Rightarrow> string list" where
  "strings_Split [] sep = [[]]"
| "strings_Split (x # xs) sep =
     (if x = sep then [] # strings_Split xs sep
      else (case strings_Split xs sep of
              [] \<Rightarrow> [[x]]
            | w # ws \<Rightarrow> (x # w) # ws))"

fun strings_Join :: "string list \<Rightarrow> string \<Rightarrow> string" where
  "strings_Join [] sep = []"
| "strings_Join [x] sep = x"
| "strings_Join (x # y # zs) sep = x @ sep @ strings_Join (y # zs) sep"

text \<open>
  \<^verbatim>\<open>path.Clean\<close>: empty and \<^verbatim>\<open>.\<close> elements are dropped, an inner \<^verbatim>\<open>..\<close> removes the
  element before it, a \<^verbatim>\<open>..\<close> at the start of a rooted path is dropped and at the start
  of a relative path is kept; the empty result is \<^verbatim>\<open>.\<close>. The elements kept so far are
  held in reverse order.
\<close>

fun clean_step :: "bool \<Rightarrow> string list \<Rightarrow> string \<Rightarrow> string list" where
  "clean_step rooted out e =
     (if e = [] \<or> e = ''.'' then out
      else if e = ''..'' then
        (case out of
           [] \<Rightarrow> if rooted then [] else [''..'']
         | t # ts \<Rightarrow> if t = ''..'' then ''..'' # out else ts)
      else e # out)"

definition clean_elems :: "bool \<Rightarrow> string list \<Rightarrow> string list" where
  "clean_elems rooted es = rev (foldl (clean_step rooted) [] es)"

definition is_rooted :: "string \<Rightarrow> bool" where
  "is_rooted p = (case p of [] \<Rightarrow> False | c # cs \<Rightarrow> c = CHR ''/'')"

definition path_Clean :: "string \<Rightarrow> string" where
  "path_Clean p =
     (let out = clean_elems (is_rooted p) (strings_Split p CHR ''/'');
          s = (if is_rooted p then ''/'' else []) @ strings_Join out ''/''
      in if s = [] then ''.'' else s)"

definition path_Join :: "string list \<Rightarrow> string" where
  "path_Join elems =
     (let es = filter (\<lambda>e. e \<noteq> []) elems
      in if es = [] then [] else path_Clean (strings_Join es ''/''))"

section \<open>The backing filesystem\<close>

text \<open>
  \<^verbatim>\<open>absfs.Filer\<close> is an interface: the package knows the backing filesystem only through
  its methods. A value of the record below gives each method as a function on the state
  \<open>'s\<close> of the backing filesystem, returning the result and the new state. \<open>'h\<close> is the
  type of open file handles; \<^verbatim>\<open>Readdir\<close> and \<^verbatim>\<open>Close\<close> are the methods of the
  \<^verbatim>\<open>absfs.File\<close> that \<^verbatim>\<open>OpenFile\<close> returns. \<open>fs_RemoveAll\<close> is the optional
  \<^verbatim>\<open>RemoveAller\<close> capability: \<open>None\<close> when the type assertion of the source fails.
\<close>

record ('s, 'h) Filer =
  fs_Stat :: "string \<Rightarrow> 's \<Rightarrow> (error + FileInfo) \<times> 's"
  fs_OpenFile :: "string \<Rightarrow> int \<Rightarrow> FileMode \<Rightarrow> 's \<Rightarrow> (error + 'h) \<times> 's"
  fs_Readdir :: "'h \<Rightarrow> int \<Rightarrow> 's \<Rightarrow> (error + FileInfo list) \<times> 's"
  fs_Close :: "'h \<Rightarrow> 's \<Rightarrow> error option \<times> 's"
  fs_Remove :: "string \<Rightarrow> 's \<Rightarrow> error option \<times> 's"
  fs_Mkdir :: "string \<Rightarrow> FileMode \<Rightarrow> 's \<Rightarrow> error option \<times> 's"
  fs_RemoveAll :: "(string \<Rightarrow> 's \<Rightarrow> error option \<times> 's) option"

text \<open>The error of a result with a value: \<^verbatim>\<open>nil\<close> when the call succeeded.\<close>

definition err_of :: "error + 'a \<Rightarrow> error option" where
  "err_of r = (case r of Inl e \<Rightarrow> Some e | Inr v \<Rightarrow> None)"

section \<open>The package: \<^verbatim>\<open>Httpfs\<close>\<close>

record ('s, 'h) Httpfs =
  fs :: "('s, 'h) Filer"

definition New :: "('s, 'h) Filer \<Rightarrow> ('s, 'h) Httpfs" where
  "New b = \<lparr>fs = b\<rparr>"

definition OpenFile ::
  "('s, 'h) Httpfs \<Rightarrow> string \<Rightarrow> int \<Rightarrow> FileMode \<Rightarrow> 's \<Rightarrow> (error + 'h) \<times> 's" where
  "OpenFile filer name flag perm = fs_OpenFile (fs filer) name flag perm"

definition Mkdir :: "('s, 'h) Httpfs \<Rightarrow> string \<Rightarrow> FileMode \<Rightarrow> 's \<Rightarrow> error option \<times> 's" where
  "Mkdir filer name perm = fs_Mkdir (fs filer) name perm"

definition Remove :: "('s, 'h) Httpfs \<Rightarrow> string \<Rightarrow> 's \<Rightarrow> error option \<times> 's" where
  "Remove filer name = fs_Remove (fs filer) name"

definition Stat :: "('s, 'h) Httpfs \<Rightarrow> string \<Rightarrow> 's \<Rightarrow> (error + FileInfo) \<times> 's" where
  "Stat filer name = fs_Stat (fs filer) name"

subsection \<open>\<^verbatim>\<open>MkdirAll\<close>\<close>

text \<open>
  The loop of \<^verbatim>\<open>MkdirAll\<close> over the elements of \<^verbatim>\<open>strings.Split(name, "/")\<close>; \<open>p\<close>
  is the path built so far.
\<close>

fun MkdirAll_loop ::
  "('s, 'h) Httpfs \<Rightarrow> FileMode \<Rightarrow> string \<Rightarrow> string list \<Rightarrow> 's \<Rightarrow> error option \<times> 's" where
  "MkdirAll_loop filer perm p [] s = (None, s)"
| "MkdirAll_loop filer perm p (name # names) s =
     (if name = [] then MkdirAll_loop filer perm p names s
      else
        (let p' = path_Join [p, name] in
         case Mkdir filer p' perm s of
           (err, s') \<Rightarrow>
             if err \<noteq> None \<and> \<not> os_IsExist err then (err, s')
             else MkdirAll_loop filer perm p' names s'))"

definition MkdirAll :: "('s, 'h) Httpfs \<Rightarrow> string \<Rightarrow> FileMode \<Rightarrow> 's \<Rightarrow> error option \<times> 's" where
  "MkdirAll filer name perm s = MkdirAll_loop filer perm ''/'' (strings_Split name CHR ''/'') s"

subsection \<open>\<^verbatim>\<open>RemoveAll\<close>\<close>

text \<open>
  The recursion of \<^verbatim>\<open>RemoveAll\<close> follows the directory tree that the backing filesystem
  reports, which need not be finite; the first argument bounds the depth of the recursion,
  and \<open>None\<close> is a run that needs a deeper recursion than that. \<open>RemoveAll_children\<close> is the
  loop over the listing, with the recursive call as a parameter.
\<close>

fun RemoveAll_children ::
  "(string \<Rightarrow> 's \<Rightarrow> (error option \<times> 's) option) \<Rightarrow> string \<Rightarrow> FileInfo list \<Rightarrow> 's
     \<Rightarrow> (error option \<times> 's) option" where
  "RemoveAll_children recurse pathname [] s = Some (None, s)"
| "RemoveAll_children recurse pathname (info # infos) s =
     (let name = Name info in
      if name = ''.'' \<or> name = ''..'' then RemoveAll_children recurse pathname infos s
      else
        (case recurse (path_Join [pathname, name]) s of
           None \<Rightarrow> None
         | Some (Some err, s') \<Rightarrow> Some (Some err, s')
         | Some (None, s') \<Rightarrow> RemoveAll_children recurse pathname infos s'))"

text \<open>Lines 125 to 133: the remove of the directory itself and the check after a failure.\<close>

definition RemoveAll_final :: "('s, 'h) Httpfs \<Rightarrow> string \<Rightarrow> 's \<Rightarrow> error option \<times> 's" where
  "RemoveAll_final filer pathname s =
     (case Remove filer pathname s of
        (None, s') \<Rightarrow> (None, s')
      | (Some err, s') \<Rightarrow>
          (case Stat filer pathname s' of
             (st, s'') \<Rightarrow>
               if os_IsNotExist (err_of st) then (None, s'') else (Some err, s'')))"

primrec RemoveAll ::
  "nat \<Rightarrow> ('s, 'h) Httpfs \<Rightarrow> string \<Rightarrow> 's \<Rightarrow> (error option \<times> 's) option" where
  "RemoveAll 0 filer pathname s = None"
| "RemoveAll (Suc depth) filer pathname s =
     (case fs_RemoveAll (fs filer) of
        Some ra \<Rightarrow>
          (case ra pathname s of
             (err, s') \<Rightarrow> if os_IsNotExist err then Some (None, s') else Some (err, s'))
      | None \<Rightarrow>
          (case Stat filer pathname s of
             (Inl err, s1) \<Rightarrow>
               if os_IsNotExist (Some err) then Some (None, s1) else Some (Some err, s1)
           | (Inr info, s1) \<Rightarrow>
               if \<not> IsDir info then Some (Remove filer pathname s1)
               else
                 (case OpenFile filer pathname O_RDONLY 0 s1 of
                    (Inl err, s2) \<Rightarrow>
                      if os_IsNotExist (Some err) then Some (None, s2) else Some (Some err, s2)
                  | (Inr f, s2) \<Rightarrow>
                      (case fs_Readdir (fs filer) f 0 s2 of
                         (listing, s3) \<Rightarrow>
                           (case fs_Close (fs filer) f s3 of
                              (closed, s4) \<Rightarrow>
                                (case listing of
                                   Inl err \<Rightarrow> Some (Some err, s4)
                                 | Inr infos \<Rightarrow>
                                     (case RemoveAll_children (RemoveAll depth filer)
                                             pathname infos s4 of
                                        None \<Rightarrow> None
                                      | Some (Some err, s5) \<Rightarrow> Some (Some err, s5)
                                      | Some (None, s5) \<Rightarrow>
                                          Some (RemoveAll_final filer pathname s5))))))))"

section \<open>Recording the calls made on the backing filesystem\<close>

text \<open>
  What the package calls, in which order and with which results, is observed by wrapping
  the backing filesystem: \<open>logged b\<close> behaves as \<open>b\<close> and appends one event to a log for
  every call it receives, the way the wrappers of the package's tests intercept calls.
\<close>

datatype 'h event =
    Called_Stat string "error + FileInfo"
  | Called_OpenFile string int FileMode "error + 'h"
  | Called_Readdir 'h int "error + FileInfo list"
  | Called_Close 'h "error option"
  | Called_Remove string "error option"
  | Called_Mkdir string FileMode "error option"
  | Called_RemoveAll string "error option"

definition log_call ::
  "('a \<Rightarrow> 'h event) \<Rightarrow> ('s \<Rightarrow> 'a \<times> 's) \<Rightarrow> 's \<times> 'h event list \<Rightarrow> 'a \<times> ('s \<times> 'h event list)" where
  "log_call ev call w = (case w of (s, log) \<Rightarrow> (case call s of (r, s') \<Rightarrow> (r, (s', log @ [ev r]))))"

definition logged :: "('s, 'h) Filer \<Rightarrow> ('s \<times> 'h event list, 'h) Filer" where
  "logged b =
     \<lparr>fs_Stat = (\<lambda>name. log_call (Called_Stat name) (fs_Stat b name)),
      fs_OpenFile = (\<lambda>name flag perm. log_call (Called_OpenFile name flag perm) (fs_OpenFile b name flag perm)),
      fs_Readdir = (\<lambda>f n. log_call (Called_Readdir f n) (fs_Readdir b f n)),
      fs_Close = (\<lambda>f. log_call (Called_Close f) (fs_Close b f)),
      fs_Remove = (\<lambda>name. log_call (Called_Remove name) (fs_Remove b name)),
      fs_Mkdir = (\<lambda>name perm. log_call (Called_Mkdir name perm) (fs_Mkdir b name perm)),
      fs_RemoveAll = map_option (\<lambda>ra name. log_call (Called_RemoveAll name) (ra name)) (fs_RemoveAll b)\<rparr>"

section \<open>Backing filesystems to run the package on\<close>

subsection \<open>A filesystem in memory\<close>

text \<open>
  Modelled from the spec: the backing filesystem is not part of this repository (the tests
  run the package on \<^verbatim>\<open>github.com/absfs/memfs\<close>). This is a small filesystem with the
  capabilities that section 4.1 of the specification asks of the backing filesystem:
  \<^verbatim>\<open>stat\<close>, \<^verbatim>\<open>remove\<close> of a file or of an empty directory, opening and listing a
  directory, and a native bulk delete. Its state is the list of its entries: the elements
  of the entry's absolute path, and whether it is a directory. The root is the empty path
  and always exists. \<open>dots\<close> says whether a listing starts with the entries \<^verbatim>\<open>.\<close> and
  \<^verbatim>\<open>..\<close>, as the comment at line 126 says of \<^verbatim>\<open>memfs\<close>.
\<close>

type_synonym memstate = "(string list \<times> bool) list"

definition mem_key :: "string \<Rightarrow> string list" where
  "mem_key name = clean_elems True (strings_Split name CHR ''/'')"

definition mem_find :: "memstate \<Rightarrow> string list \<Rightarrow> bool option" where
  "mem_find st k = (if k = [] then Some True else map_of st k)"

definition is_below :: "string list \<Rightarrow> string list \<Rightarrow> bool" where
  "is_below k q = (length k < length q \<and> take (length k) q = k)"

definition mem_info :: "string list \<Rightarrow> bool \<Rightarrow> FileInfo" where
  "mem_info k d = \<lparr>Name = (if k = [] then ''/'' else last k), IsDir = d\<rparr>"

definition mem_Stat :: "string \<Rightarrow> memstate \<Rightarrow> (error + FileInfo) \<times> memstate" where
  "mem_Stat name st =
     (case mem_find st (mem_key name) of
        None \<Rightarrow> (Inl (ErrNotExist name), st)
      | Some d \<Rightarrow> (Inr (mem_info (mem_key name) d), st))"

definition mem_OpenFile ::
  "string \<Rightarrow> int \<Rightarrow> FileMode \<Rightarrow> memstate \<Rightarrow> (error + string list) \<times> memstate" where
  "mem_OpenFile name flag perm st =
     (case mem_find st (mem_key name) of
        None \<Rightarrow> (Inl (ErrNotExist name), st)
      | Some d \<Rightarrow> (Inr (mem_key name), st))"

definition mem_Readdir ::
  "bool \<Rightarrow> string list \<Rightarrow> int \<Rightarrow> memstate \<Rightarrow> (error + FileInfo list) \<times> memstate" where
  "mem_Readdir dots h n st =
     (if mem_find st h = Some True
      then (Inr ((if dots then [\<lparr>Name = ''.'', IsDir = True\<rparr>, \<lparr>Name = ''..'', IsDir = True\<rparr>] else [])
                 @ map (\<lambda>(k, d). mem_info k d) (filter (\<lambda>(k, d). k \<noteq> [] \<and> butlast k = h) st)), st)
      else (Inl (ErrOther ''not a directory''), st))"

definition mem_Close :: "string list \<Rightarrow> memstate \<Rightarrow> error option \<times> memstate" where
  "mem_Close h st = (None, st)"

definition mem_Remove :: "string \<Rightarrow> memstate \<Rightarrow> error option \<times> memstate" where
  "mem_Remove name st =
     (let k = mem_key name in
      case mem_find st k of
        None \<Rightarrow> (Some (ErrNotExist name), st)
      | Some d \<Rightarrow>
          if k = [] then (Some (ErrOther ''cannot remove the root''), st)
          else if d \<and> list_ex (\<lambda>(q, _). is_below k q) st then (Some (ErrNotEmpty name), st)
          else (None, filter (\<lambda>(q, _). q \<noteq> k) st))"

definition mem_Mkdir :: "string \<Rightarrow> FileMode \<Rightarrow> memstate \<Rightarrow> error option \<times> memstate" where
  "mem_Mkdir name perm st =
     (let k = mem_key name in
      case mem_find st k of
        Some d \<Rightarrow> (Some (ErrExist name), st)
      | None \<Rightarrow>
          (case mem_find st (butlast k) of
             None \<Rightarrow> (Some (ErrNotExist name), st)
           | Some d \<Rightarrow>
               if d then (None, st @ [(k, True)])
               else (Some (ErrOther ''not a directory''), st)))"

definition mem_RemoveAll :: "string \<Rightarrow> memstate \<Rightarrow> error option \<times> memstate" where
  "mem_RemoveAll name st =
     (let k = mem_key name in
      case mem_find st k of
        None \<Rightarrow> (Some (ErrNotExist name), st)
      | Some d \<Rightarrow>
          if k = [] then (Some (ErrOther ''cannot remove the root''), [])
          else (None, filter (\<lambda>(q, _). q \<noteq> k \<and> \<not> is_below k q) st))"

definition memfs :: "bool \<Rightarrow> (memstate, string list) Filer" where
  "memfs dots =
     \<lparr>fs_Stat = mem_Stat, fs_OpenFile = mem_OpenFile, fs_Readdir = mem_Readdir dots,
      fs_Close = mem_Close, fs_Remove = mem_Remove, fs_Mkdir = mem_Mkdir,
      fs_RemoveAll = Some mem_RemoveAll\<rparr>"

subsection \<open>The wrappers of the package's tests\<close>

text \<open>
  \<^verbatim>\<open>noRemoveAllFS\<close> hides the \<^verbatim>\<open>RemoveAll\<close> method of the filesystem it wraps.
  \<^verbatim>\<open>errorFS\<close> answers \<^verbatim>\<open>Stat\<close>, \<^verbatim>\<open>OpenFile\<close> and \<^verbatim>\<open>Remove\<close> with the error it was
  given, when it was given one (its field \<^verbatim>\<open>readdirErr\<close> is read by none of its
  methods); it embeds the interface \<^verbatim>\<open>absfs.Filer\<close>, so it has no \<^verbatim>\<open>RemoveAll\<close> method
  either. \<^verbatim>\<open>conditionalErrorFS\<close> answers \<^verbatim>\<open>Remove\<close> with a function of the test, and
  \<^verbatim>\<open>readdirErrorFS\<close> makes \<^verbatim>\<open>Readdir\<close> fail on the files it opens.
\<close>

definition noRemoveAllFS :: "('s, 'h) Filer \<Rightarrow> ('s, 'h) Filer" where
  "noRemoveAllFS b = b\<lparr>fs_RemoveAll := None\<rparr>"

definition errorFS ::
  "('s, 'h) Filer \<Rightarrow> error option \<Rightarrow> error option \<Rightarrow> error option \<Rightarrow> ('s, 'h) Filer" where
  "errorFS b statErr openFileErr removeErr =
     b\<lparr>fs_Stat := (\<lambda>name s. case statErr of Some e \<Rightarrow> (Inl e, s) | None \<Rightarrow> fs_Stat b name s),
       fs_OpenFile := (\<lambda>name flag perm s.
          case openFileErr of Some e \<Rightarrow> (Inl e, s) | None \<Rightarrow> fs_OpenFile b name flag perm s),
       fs_Remove := (\<lambda>name s. case removeErr of Some e \<Rightarrow> (Some e, s) | None \<Rightarrow> fs_Remove b name s),
       fs_RemoveAll := None\<rparr>"

definition conditionalErrorFS ::
  "('s, 'h) Filer \<Rightarrow> (string \<Rightarrow> 's \<Rightarrow> error option \<times> 's) option \<Rightarrow> ('s, 'h) Filer" where
  "conditionalErrorFS b removeFunc =
     b\<lparr>fs_Remove := (case removeFunc of Some f \<Rightarrow> f | None \<Rightarrow> fs_Remove b),
       fs_RemoveAll := None\<rparr>"

definition readdirErrorFS :: "('s, 'h) Filer \<Rightarrow> error option \<Rightarrow> ('s, 'h) Filer" where
  "readdirErrorFS b readdirErr =
     b\<lparr>fs_Readdir := (\<lambda>f n s. case readdirErr of Some e \<Rightarrow> (Inl e, s) | None \<Rightarrow> fs_Readdir b f n s),
       fs_RemoveAll := None\<rparr>"

text \<open>
  Two functions for \<^verbatim>\<open>conditionalErrorFS\<close> over the filesystem in memory. The first is
  the one of \<^verbatim>\<open>TestRemoveAllFinalRemoveError\<close>: \<^verbatim>\<open>Remove\<close> of the target fails and
  removes nothing. The second is the behaviour that the comment at line 126 ascribes to
  some filesystems: \<^verbatim>\<open>Remove\<close> of the target removes it and reports an error all the same.
\<close>

definition failing_remove ::
  "string \<Rightarrow> error \<Rightarrow> string \<Rightarrow> memstate \<Rightarrow> error option \<times> memstate" where
  "failing_remove target testErr name st =
     (if name = target then (Some testErr, st) else mem_Remove name st)"

definition misreporting_remove ::
  "string \<Rightarrow> error \<Rightarrow> string \<Rightarrow> memstate \<Rightarrow> error option \<times> memstate" where
  "misreporting_remove target testErr name st =
     (if name = target then (Some testErr, snd (mem_Remove name st)) else mem_Remove name st)"

section \<open>The logs that \<^verbatim>\<open>RemoveAll\<close> can leave\<close>

text \<open>
  \<open>walk p r evs\<close>: a call \<^verbatim>\<open>RemoveAll(p)\<close> that returns \<open>r\<close> may have made the calls \<open>evs\<close>
  on the backing filesystem, with the results recorded there; \<open>walks p infos r evs\<close> is the
  same for the loop over the listing \<open>infos\<close> of the directory \<open>p\<close>. One rule for each way
  through the function.
\<close>

inductive walk :: "string \<Rightarrow> error option \<Rightarrow> 'h event list \<Rightarrow> bool"
  and walks :: "string \<Rightarrow> FileInfo list \<Rightarrow> error option \<Rightarrow> 'h event list \<Rightarrow> bool" where
  walk_native:
    "walk p (if os_IsNotExist x then None else x) [Called_RemoveAll p x]"
| walk_stat_failed:
    "walk p (if os_IsNotExist (Some e) then None else Some e) [Called_Stat p (Inl e)]"
| walk_file:
    "\<not> IsDir info \<Longrightarrow> walk p x [Called_Stat p (Inr info), Called_Remove p x]"
| walk_open_failed:
    "IsDir info \<Longrightarrow>
     walk p (if os_IsNotExist (Some e) then None else Some e)
       [Called_Stat p (Inr info), Called_OpenFile p O_RDONLY 0 (Inl e)]"
| walk_readdir_failed:
    "IsDir info \<Longrightarrow>
     walk p (Some e)
       [Called_Stat p (Inr info), Called_OpenFile p O_RDONLY 0 (Inr f),
        Called_Readdir f 0 (Inl e), Called_Close f c]"
| walk_child_failed:
    "IsDir info \<Longrightarrow> walks p infos (Some e) evs \<Longrightarrow>
     walk p (Some e)
       ([Called_Stat p (Inr info), Called_OpenFile p O_RDONLY 0 (Inr f),
         Called_Readdir f 0 (Inr infos), Called_Close f c] @ evs)"
| walk_dir_removed:
    "IsDir info \<Longrightarrow> walks p infos None evs \<Longrightarrow>
     walk p None
       ([Called_Stat p (Inr info), Called_OpenFile p O_RDONLY 0 (Inr f),
         Called_Readdir f 0 (Inr infos), Called_Close f c] @ evs @ [Called_Remove p None])"
| walk_dir_checked:
    "IsDir info \<Longrightarrow> walks p infos None evs \<Longrightarrow>
     walk p (if os_IsNotExist (err_of st) then None else Some e)
       ([Called_Stat p (Inr info), Called_OpenFile p O_RDONLY 0 (Inr f),
         Called_Readdir f 0 (Inr infos), Called_Close f c] @ evs
        @ [Called_Remove p (Some e), Called_Stat p st])"
| walks_done:
    "walks p [] None []"
| walks_skip:
    "Name info = ''.'' \<or> Name info = ''..'' \<Longrightarrow> walks p infos r evs \<Longrightarrow>
     walks p (info # infos) r evs"
| walks_failed:
    "Name info \<noteq> ''.'' \<Longrightarrow> Name info \<noteq> ''..'' \<Longrightarrow>
     walk (path_Join [p, Name info]) (Some e) evs \<Longrightarrow>
     walks p (info # infos) (Some e) evs"
| walks_next:
    "Name info \<noteq> ''.'' \<Longrightarrow> Name info \<noteq> ''..'' \<Longrightarrow>
     walk (path_Join [p, Name info]) None evs \<Longrightarrow> walks p infos r evs' \<Longrightarrow>
     walks p (info # infos) r (evs @ evs')"

text \<open>
  The handles that a log leaves open: \<^verbatim>\<open>OpenFile\<close> that succeeds opens its handle and
  \<^verbatim>\<open>Close\<close> closes one.
\<close>

fun open_handles :: "'h event list \<Rightarrow> 'h list \<Rightarrow> 'h list" where
  "open_handles [] hs = hs"
| "open_handles (Called_OpenFile name flag perm (Inr h) # evs) hs = open_handles evs (h # hs)"
| "open_handles (Called_Close h r # evs) hs = open_handles evs (remove1 h hs)"
| "open_handles (ev # evs) hs = open_handles evs hs"


section \<open>Notions used to state the properties\<close>

text \<open>
  A plain name is what a directory entry is called: not empty, not \<^verbatim>\<open>.\<close> or \<^verbatim>\<open>..\<close>, and
  without a slash. A state of the filesystem in memory is well named when all elements of
  all its paths are plain names; its depth is the length of its longest path.
\<close>

definition plain_name :: "string \<Rightarrow> bool" where
  "plain_name n = (n \<noteq> [] \<and> n \<noteq> ''.'' \<and> n \<noteq> ''..'' \<and> CHR ''/'' \<notin> set n)"

definition names_ok :: "memstate \<Rightarrow> bool" where
  "names_ok st = list_all (\<lambda>(k, d). list_all plain_name k) st"

definition mem_depth :: "memstate \<Rightarrow> nat" where
  "mem_depth st = fold (\<lambda>(k, d). max (length k)) st 0"

text \<open>
  A state of the filesystem in memory is a directory tree when it is well named, no path
  occurs twice, and every entry but those directly below the root lies in an entry that
  is a directory. \<open>at_or_below k q\<close>: the path \<open>q\<close> is \<open>k\<close> or lies below it.
  \<open>remove_subtree k st\<close> is \<open>st\<close> without the entry \<open>k\<close> and without its descendants.
\<close>

definition at_or_below :: "string list \<Rightarrow> string list \<Rightarrow> bool" where
  "at_or_below k q = (take (length k) q = k)"

definition remove_subtree :: "string list \<Rightarrow> memstate \<Rightarrow> memstate" where
  "remove_subtree k st = filter (\<lambda>(q, d). \<not> at_or_below k q) st"

definition tree_ok :: "memstate \<Rightarrow> bool" where
  "tree_ok st =
     (names_ok st \<and> distinct (map fst st) \<and>
      list_all (\<lambda>(q, d). q \<noteq> [] \<and> (butlast q = [] \<or> (butlast q, True) \<in> set st)) st)"

text \<open>
  The prefixes of \<open>name\<close> in the words of claim C10: \<open>slash_prefixes name\<close> lists, from the
  shortest to the longest, the prefixes of the string \<open>name\<close> that end with the last
  character of a non-empty element, that is, with a character that is not a slash and is
  followed by a slash or by nothing. \<open>Mkdir_each\<close> calls \<^verbatim>\<open>Mkdir\<close> on each path of a list in
  order, goes on after a success and after an error of which \<^verbatim>\<open>os.IsExist\<close> holds, and
  stops with the first other error.
\<close>

fun prefixes_from :: "string \<Rightarrow> string \<Rightarrow> string list" where
  "prefixes_from pre [] = []"
| "prefixes_from pre (c # cs) =
     (if c \<noteq> CHR ''/'' \<and> (cs = [] \<or> hd cs = CHR ''/'') then [pre @ [c]] else [])
     @ prefixes_from (pre @ [c]) cs"

definition slash_prefixes :: "string \<Rightarrow> string list" where
  "slash_prefixes name = prefixes_from [] name"

fun Mkdir_each ::
  "('s, 'h) Httpfs \<Rightarrow> FileMode \<Rightarrow> string list \<Rightarrow> 's \<Rightarrow> error option \<times> 's" where
  "Mkdir_each filer perm [] s = (None, s)"
| "Mkdir_each filer perm (p # ps) s =
     (case Mkdir filer p perm s of
        (err, s') \<Rightarrow>
          if err \<noteq> None \<and> \<not> os_IsExist err then (err, s')
          else Mkdir_each filer perm ps s')"

text \<open>
  For the proofs: the rooted path with the given elements, and the prefixes of a name read
  off its elements, \<open>seen\<close> being the elements already passed.
\<close>

definition rooted_path :: "string list \<Rightarrow> string" where
  "rooted_path es = ''/'' @ strings_Join es ''/''"

fun prefixes_of_parts :: "string list \<Rightarrow> string list \<Rightarrow> string list" where
  "prefixes_of_parts seen [] = []"
| "prefixes_of_parts seen (e # es) =
     (if e = [] then [] else [strings_Join (seen @ [e]) ''/''])
     @ prefixes_of_parts (seen @ [e]) es"

text \<open>
  The tree of \<^verbatim>\<open>TestRemoveAllDeeplyNested\<close>: ten directories, one inside the other, and a
  file in the last.
\<close>

definition deep_tree :: memstate where
  "deep_tree =
     [([''a''], True),
      ([''a'', ''b''], True),
      ([''a'', ''b'', ''c''], True),
      ([''a'', ''b'', ''c'', ''d''], True),
      ([''a'', ''b'', ''c'', ''d'', ''e''], True),
      ([''a'', ''b'', ''c'', ''d'', ''e'', ''f''], True),
      ([''a'', ''b'', ''c'', ''d'', ''e'', ''f'', ''g''], True),
      ([''a'', ''b'', ''c'', ''d'', ''e'', ''f'', ''g'', ''h''], True),
      ([''a'', ''b'', ''c'', ''d'', ''e'', ''f'', ''g'', ''h'', ''i''], True),
      ([''a'', ''b'', ''c'', ''d'', ''e'', ''f'', ''g'', ''h'', ''i'', ''j''], True),
      ([''a'', ''b'', ''c'', ''d'', ''e'', ''f'', ''g'', ''h'', ''i'', ''j'', ''file.txt''], False)]"

section \<open>Basic facts\<close>

lemma fs_New [simp]: "fs (New b) = b"
  by (simp add: New_def)

lemma logged_Stat [simp]:
  "fs_Stat (logged b) name (s, log) =
     (case fs_Stat b name s of (r, s') \<Rightarrow> (r, (s', log @ [Called_Stat name r])))"
  by (simp add: logged_def log_call_def)

lemma logged_OpenFile [simp]:
  "fs_OpenFile (logged b) name flag perm (s, log) =
     (case fs_OpenFile b name flag perm s of
        (r, s') \<Rightarrow> (r, (s', log @ [Called_OpenFile name flag perm r])))"
  by (simp add: logged_def log_call_def)

lemma logged_Readdir [simp]:
  "fs_Readdir (logged b) f n (s, log) =
     (case fs_Readdir b f n s of (r, s') \<Rightarrow> (r, (s', log @ [Called_Readdir f n r])))"
  by (simp add: logged_def log_call_def)

lemma logged_Close [simp]:
  "fs_Close (logged b) f (s, log) =
     (case fs_Close b f s of (r, s') \<Rightarrow> (r, (s', log @ [Called_Close f r])))"
  by (simp add: logged_def log_call_def)

lemma logged_Remove [simp]:
  "fs_Remove (logged b) name (s, log) =
     (case fs_Remove b name s of (r, s') \<Rightarrow> (r, (s', log @ [Called_Remove name r])))"
  by (simp add: logged_def log_call_def)

lemma logged_Mkdir [simp]:
  "fs_Mkdir (logged b) name perm (s, log) =
     (case fs_Mkdir b name perm s of (r, s') \<Rightarrow> (r, (s', log @ [Called_Mkdir name perm r])))"
  by (simp add: logged_def log_call_def)

lemma logged_RemoveAll_None [simp]:
  "fs_RemoveAll b = None \<Longrightarrow> fs_RemoveAll (logged b) = None"
  by (simp add: logged_def)

lemma logged_RemoveAll_Some [simp]:
  "fs_RemoveAll b = Some ra \<Longrightarrow>
   fs_RemoveAll (logged b) = Some (\<lambda>name. log_call (Called_RemoveAll name) (ra name))"
  by (simp add: logged_def)

section \<open>The paths through \<^verbatim>\<open>RemoveAll\<close>\<close>

text \<open>
  Claim C2. \<^verbatim>\<open>RemoveAll\<close> of a path that does not exist returns \<^verbatim>\<open>nil\<close>: when the native
  \<^verbatim>\<open>RemoveAll\<close> of the backing filesystem fails with a not-exist error, the result is
  \<^verbatim>\<open>nil\<close>; without a native \<^verbatim>\<open>RemoveAll\<close>, when \<^verbatim>\<open>Stat\<close> fails, the result is \<^verbatim>\<open>nil\<close> for
  a not-exist error and the error of \<^verbatim>\<open>Stat\<close> itself for any other. In each case the
  call that failed is the only call made on the backing filesystem.
\<close>

theorem RemoveAll_absent_path:
  "(fs_RemoveAll b = Some ra \<longrightarrow> ra pathname s = (Some e, s') \<longrightarrow> os_IsNotExist (Some e) \<longrightarrow>
      RemoveAll (Suc depth) (New (logged b)) pathname (s, log) =
        Some (None, (s', log @ [Called_RemoveAll pathname (Some e)])))
   \<and> (fs_RemoveAll b = None \<longrightarrow> fs_Stat b pathname s = (Inl e, s') \<longrightarrow>
      RemoveAll (Suc depth) (New (logged b)) pathname (s, log) =
        Some (if os_IsNotExist (Some e) then None else Some e,
              (s', log @ [Called_Stat pathname (Inl e)])))"
  by (simp add: log_call_def Stat_def)

theorem RemoveAll_absent_path_witness:
  "RemoveAll (Suc 0) (New (logged (memfs False))) ''/nonexistent'' ([], []) =
     Some (None, ([], [Called_RemoveAll ''/nonexistent'' (Some (ErrNotExist ''/nonexistent''))]))
   \<and> RemoveAll (Suc 0) (New (logged (noRemoveAllFS (memfs False)))) ''/nonexistent'' ([], []) =
     Some (None, ([], [Called_Stat ''/nonexistent'' (Inl (ErrNotExist ''/nonexistent''))]))
   \<and> RemoveAll (Suc 0)
        (New (logged (errorFS (noRemoveAllFS (memfs False)) (Some (ErrOther ''stat error'')) None None)))
        ''/test'' ([], []) =
     Some (Some (ErrOther ''stat error''), ([], [Called_Stat ''/test'' (Inl (ErrOther ''stat error''))]))"
proof -
  let ?gone = "ErrNotExist ''/nonexistent''"
  let ?E = "errorFS (noRemoveAllFS (memfs False)) (Some (ErrOther ''stat error'')) None None"
  have n1: "fs_RemoveAll (memfs False) = Some mem_RemoveAll"
    by (simp add: memfs_def)
  have n2: "mem_RemoveAll ''/nonexistent'' [] = (Some ?gone, [])"
    by code_simp
  have n3: "os_IsNotExist (Some ?gone)"
    by simp
  have m1: "fs_RemoveAll (noRemoveAllFS (memfs False)) = None"
    by (simp add: noRemoveAllFS_def)
  have m2: "fs_Stat (noRemoveAllFS (memfs False)) ''/nonexistent'' [] = (Inl ?gone, [])"
    by code_simp
  have e1: "fs_RemoveAll ?E = None"
    by (simp add: errorFS_def)
  have e2: "fs_Stat ?E ''/test'' [] = (Inl (ErrOther ''stat error''), [])"
    by code_simp
  show ?thesis
    using RemoveAll_absent_path [of "memfs False" mem_RemoveAll "''/nonexistent''" "[]" ?gone "[]" 0 "[]"]
      RemoveAll_absent_path [of "noRemoveAllFS (memfs False)" mem_RemoveAll "''/nonexistent''" "[]" ?gone "[]" 0 "[]"]
      RemoveAll_absent_path [of ?E mem_RemoveAll "''/test''" "[]" "ErrOther ''stat error''" "[]" 0 "[]"]
      n1 n2 n3 m1 m2 e1 e2
    by simp
qed

text \<open>
  Claim C3. When the backing filesystem has a native \<^verbatim>\<open>RemoveAll\<close>, \<^verbatim>\<open>RemoveAll\<close> calls it
  and makes no other call on the backing filesystem; a not-exist error of the native call
  becomes \<^verbatim>\<open>nil\<close>, and every other result of it is returned as it is.
\<close>

theorem RemoveAll_native_delegation:
  assumes "fs_RemoveAll b = Some ra"
    and "ra pathname s = (err, s')"
  shows "RemoveAll (Suc depth) (New (logged b)) pathname (s, log) =
           Some (if os_IsNotExist err then None else err,
                 (s', log @ [Called_RemoveAll pathname err]))"
  using assms by (simp add: log_call_def)

theorem RemoveAll_native_delegation_witness:
  "RemoveAll (Suc 0) (New (logged (memfs False))) ''/nonexistent'' ([], []) =
     Some (None, ([], [Called_RemoveAll ''/nonexistent'' (Some (ErrNotExist ''/nonexistent''))]))
   \<and> RemoveAll (Suc 0) (New (logged (memfs False))) ''/a''
        ([([''a''], True), ([''a'', ''b''], False)], []) =
     Some (None, ([], [Called_RemoveAll ''/a'' None]))
   \<and> RemoveAll (Suc 0) (New (logged (memfs False))) ''/'' ([([''a''], True)], []) =
     Some (Some (ErrOther ''cannot remove the root''),
           ([], [Called_RemoveAll ''/'' (Some (ErrOther ''cannot remove the root''))]))"
proof -
  have h1: "fs_RemoveAll (memfs False) = Some mem_RemoveAll"
    by (simp add: memfs_def)
  have h2: "mem_RemoveAll ''/nonexistent'' [] = (Some (ErrNotExist ''/nonexistent''), [])"
    by code_simp
  have h3: "mem_RemoveAll ''/a'' [([''a''], True), ([''a'', ''b''], False)] = (None, [])"
    by code_simp
  have h4: "mem_RemoveAll ''/'' [([''a''], True)] = (Some (ErrOther ''cannot remove the root''), [])"
    by code_simp
  show ?thesis
    using RemoveAll_native_delegation [OF h1 h2, of 0 "[]"]
      RemoveAll_native_delegation [OF h1 h3, of 0 "[]"]
      RemoveAll_native_delegation [OF h1 h4, of 0 "[]"]
    by simp
qed

text \<open>
  Claim C4, amended. When the backing filesystem has no native \<^verbatim>\<open>RemoveAll\<close>, on a path
  that \<^verbatim>\<open>Stat\<close> reports as existing and not a directory, \<^verbatim>\<open>RemoveAll\<close> is the call of
  \<^verbatim>\<open>Remove\<close> on that path: after the \<^verbatim>\<open>Stat\<close>, one \<^verbatim>\<open>Remove\<close> of the path is the only call
  made, and its result and state are the result and state of \<^verbatim>\<open>RemoveAll\<close>, whatever the
  depth allowed for the recursion.
\<close>

theorem RemoveAll_on_file:
  assumes "fs_RemoveAll b = None"
    and "fs_Stat b pathname s = (Inr info, s1)"
    and "\<not> IsDir info"
    and "fs_Remove b pathname s1 = (err, s2)"
  shows "RemoveAll (Suc depth) (New (logged b)) pathname (s, log) =
           Some (Remove (New (logged b)) pathname (s1, log @ [Called_Stat pathname (Inr info)]))
         \<and> Remove (New (logged b)) pathname (s1, log @ [Called_Stat pathname (Inr info)]) =
             (err, (s2, log @ [Called_Stat pathname (Inr info), Called_Remove pathname err]))"
  using assms by (simp add: Stat_def Remove_def)

theorem RemoveAll_on_file_witness:
  "RemoveAll (Suc 0) (New (logged (noRemoveAllFS (memfs False)))) ''/testfile.txt''
     ([([''testfile.txt''], False)], []) =
     Some (None, ([], [Called_Stat ''/testfile.txt'' (Inr \<lparr>Name = ''testfile.txt'', IsDir = False\<rparr>),
                       Called_Remove ''/testfile.txt'' None]))"
proof -
  let ?b = "noRemoveAllFS (memfs False)"
  let ?st = "[([''testfile.txt''], False)]"
  let ?info = "\<lparr>Name = ''testfile.txt'', IsDir = False\<rparr>"
  have h1: "fs_RemoveAll ?b = None"
    by (simp add: noRemoveAllFS_def)
  have h2: "fs_Stat ?b ''/testfile.txt'' ?st = (Inr ?info, ?st)"
    by code_simp
  have h3: "\<not> IsDir ?info"
    by simp
  have h4: "fs_Remove ?b ''/testfile.txt'' ?st = (None, [])"
    by code_simp
  show ?thesis
    using RemoveAll_on_file [OF h1 h2 h3 h4, of 0 "[]"] by simp
qed

text \<open>
  Claim C4 as it is written speaks of every path that exists and is not a directory. With
  a native \<^verbatim>\<open>RemoveAll\<close>, as in \<^verbatim>\<open>TestRemoveAllOnFile\<close>, the file is removed by the native
  call (line 79) and \<^verbatim>\<open>Remove\<close> is not called.
\<close>

theorem RemoveAll_on_file_native_counterexample:
  "Stat (New (logged (memfs False))) ''/test.txt'' ([([''test.txt''], False)], []) =
     (Inr \<lparr>Name = ''test.txt'', IsDir = False\<rparr>,
      ([([''test.txt''], False)],
       [Called_Stat ''/test.txt'' (Inr \<lparr>Name = ''test.txt'', IsDir = False\<rparr>)]))
   \<and> RemoveAll (Suc 0) (New (logged (memfs False))) ''/test.txt'' ([([''test.txt''], False)], []) =
     Some (None, ([], [Called_RemoveAll ''/test.txt'' None]))"
  by code_simp

text \<open>
  Claim C6. When the \<^verbatim>\<open>Remove\<close> of the directory itself, after its children have been
  removed, fails, \<^verbatim>\<open>RemoveAll\<close> calls \<^verbatim>\<open>Stat\<close> on the path again: it returns \<^verbatim>\<open>nil\<close> when
  that \<^verbatim>\<open>Stat\<close> fails with a not-exist error, and the error of \<^verbatim>\<open>Remove\<close>, unchanged,
  otherwise.
\<close>

theorem RemoveAll_final_remove:
  assumes "fs_RemoveAll (fs filer) = None"
    and "Stat filer pathname s = (Inr info, s1)"
    and "IsDir info"
    and "OpenFile filer pathname O_RDONLY 0 s1 = (Inr f, s2)"
    and "fs_Readdir (fs filer) f 0 s2 = (Inr infos, s3)"
    and "fs_Close (fs filer) f s3 = (closed, s4)"
    and "RemoveAll_children (RemoveAll depth filer) pathname infos s4 = Some (None, s5)"
    and "Remove filer pathname s5 = (Some err, s6)"
    and "Stat filer pathname s6 = (st, s7)"
  shows "RemoveAll (Suc depth) filer pathname s =
           Some (if os_IsNotExist (err_of st) then None else Some err, s7)"
  using assms by (simp add: RemoveAll_final_def)

theorem RemoveAll_final_remove_witness:
  "RemoveAll (Suc (Suc 0))
     (New (conditionalErrorFS (noRemoveAllFS (memfs True))
            (Some (misreporting_remove ''/testdir'' (ErrNotEmpty ''directory not empty'')))))
     ''/testdir'' [([''testdir''], True)] = Some (None, [])
   \<and> RemoveAll (Suc (Suc 0))
     (New (conditionalErrorFS (noRemoveAllFS (memfs True))
            (Some (failing_remove ''/testdir'' (ErrOther ''final remove error'')))))
     ''/testdir'' [([''testdir''], True)] =
       Some (Some (ErrOther ''final remove error''), [([''testdir''], True)])"
proof -
  let ?st = "[([''testdir''], True)]"
  let ?dots = "[\<lparr>Name = ''.'', IsDir = True\<rparr>, \<lparr>Name = ''..'', IsDir = True\<rparr>]"
  let ?info = "\<lparr>Name = ''testdir'', IsDir = True\<rparr>"
  let ?A = "New (conditionalErrorFS (noRemoveAllFS (memfs True))
            (Some (misreporting_remove ''/testdir'' (ErrNotEmpty ''directory not empty''))))"
  let ?B = "New (conditionalErrorFS (noRemoveAllFS (memfs True))
            (Some (failing_remove ''/testdir'' (ErrOther ''final remove error''))))"
  have a1: "fs_RemoveAll (fs ?A) = None" by code_simp
  have a2: "Stat ?A ''/testdir'' ?st = (Inr ?info, ?st)" by code_simp
  have a3: "IsDir ?info" by simp
  have a4: "OpenFile ?A ''/testdir'' O_RDONLY 0 ?st = (Inr [''testdir''], ?st)" by code_simp
  have a5: "fs_Readdir (fs ?A) [''testdir''] 0 ?st = (Inr ?dots, ?st)" by code_simp
  have a6: "fs_Close (fs ?A) [''testdir''] ?st = (None, ?st)" by code_simp
  have a7: "RemoveAll_children (RemoveAll (Suc 0) ?A) ''/testdir'' ?dots ?st = Some (None, ?st)"
    by simp
  have a8: "Remove ?A ''/testdir'' ?st = (Some (ErrNotEmpty ''directory not empty''), [])"
    by code_simp
  have a9: "Stat ?A ''/testdir'' [] = (Inl (ErrNotExist ''/testdir''), [])" by code_simp
  have b1: "fs_RemoveAll (fs ?B) = None" by code_simp
  have b2: "Stat ?B ''/testdir'' ?st = (Inr ?info, ?st)" by code_simp
  have b4: "OpenFile ?B ''/testdir'' O_RDONLY 0 ?st = (Inr [''testdir''], ?st)" by code_simp
  have b5: "fs_Readdir (fs ?B) [''testdir''] 0 ?st = (Inr ?dots, ?st)" by code_simp
  have b6: "fs_Close (fs ?B) [''testdir''] ?st = (None, ?st)" by code_simp
  have b7: "RemoveAll_children (RemoveAll (Suc 0) ?B) ''/testdir'' ?dots ?st = Some (None, ?st)"
    by simp
  have b8: "Remove ?B ''/testdir'' ?st = (Some (ErrOther ''final remove error''), ?st)"
    by code_simp
  show ?thesis
    using RemoveAll_final_remove [OF a1 a2 a3 a4 a5 a6 a7 a8 a9]
      RemoveAll_final_remove [OF b1 b2 a3 b4 b5 b6 b7 b8 b2]
    by (simp add: err_of_def)
qed

section \<open>Every run of \<^verbatim>\<open>RemoveAll\<close> leaves a log of the shape \<open>walk\<close>\<close>

lemma RemoveAll_children_append:
  "RemoveAll_children recurse p (xs @ ys) s =
     (case RemoveAll_children recurse p xs s of
        None \<Rightarrow> None
      | Some (Some e, s') \<Rightarrow> Some (Some e, s')
      | Some (None, s') \<Rightarrow> RemoveAll_children recurse p ys s')"
  by (induction xs arbitrary: s) (auto simp: Let_def split: option.splits prod.splits)

lemma RemoveAll_children_walks:
  assumes step: "\<forall>q s log r s' log'. recurse q (s, log) = Some (r, (s', log')) \<longrightarrow>
                   (\<exists>evs. log' = log @ evs \<and> walk q r evs)"
  shows "RemoveAll_children recurse p infos (s, log) = Some (r, (s', log')) \<Longrightarrow>
         \<exists>evs. log' = log @ evs \<and> walks p infos r evs"
proof (induction infos arbitrary: s log)
  case Nil
  then show ?case by (auto intro: walks_done)
next
  case (Cons info infos)
  show ?case
  proof (cases "Name info = ''.'' \<or> Name info = ''..''")
    case True
    with Cons.prems have "RemoveAll_children recurse p infos (s, log) = Some (r, (s', log'))"
      by (simp add: Let_def)
    from Cons.IH [OF this] True show ?thesis
      by (auto intro: walks_skip)
  next
    case False
    let ?q = "path_Join [p, Name info]"
    from False Cons.prems obtain r1 s1 log1 where
      r1: "recurse ?q (s, log) = Some (r1, (s1, log1))"
      by (auto simp: Let_def split: option.splits)
    from step r1 obtain evs1 where evs1: "log1 = log @ evs1" "walk ?q r1 evs1"
      by blast
    show ?thesis
    proof (cases r1)
      case None
      with False Cons.prems r1
      have "RemoveAll_children recurse p infos (s1, log1) = Some (r, (s', log'))"
        by (simp add: Let_def)
      from Cons.IH [OF this] obtain evs2 where "log' = log1 @ evs2" "walks p infos r evs2"
        by blast
      with evs1 None False show ?thesis
        by (auto intro: walks_next)
    next
      case (Some e)
      with False Cons.prems r1 have "r = Some e" "s' = s1" "log' = log1"
        by (simp_all add: Let_def)
      with evs1 Some False show ?thesis
        by (auto intro: walks_failed)
    qed
  qed
qed

lemma RemoveAll_walk:
  "RemoveAll depth (New (logged b)) p (s, log) = Some (r, (s', log')) \<Longrightarrow>
   \<exists>evs. log' = log @ evs \<and> walk p r evs"
proof (induction depth arbitrary: p s log r s' log')
  case 0
  then show ?case by simp
next
  case (Suc depth)
  show ?case
  proof (cases "fs_RemoveAll b")
    case (Some ra)
    obtain x s1 where "ra p s = (x, s1)" by (cases "ra p s")
    with Some Suc.prems show ?thesis
      using walk_native [where p = p and x = x]
      by (auto simp: log_call_def split: if_splits)
  next
    case None
    note nat = None
    obtain st s1 where st: "fs_Stat b p s = (st, s1)" by (cases "fs_Stat b p s")
    show ?thesis
    proof (cases st)
      case (Inl e)
      with nat st Suc.prems show ?thesis
        using walk_stat_failed [where p = p and e = e]
        by (auto simp: Stat_def split: if_splits)
    next
      case (Inr info)
      note info = Inr
      show ?thesis
      proof (cases "IsDir info")
        case False
        obtain x s2 where "fs_Remove b p s1 = (x, s2)" by (cases "fs_Remove b p s1")
        with nat st info False Suc.prems show ?thesis
          by (auto simp: Stat_def Remove_def intro: walk_file)
      next
        case True
        obtain ot s2 where ot: "fs_OpenFile b p O_RDONLY 0 s1 = (ot, s2)"
          by (cases "fs_OpenFile b p O_RDONLY 0 s1")
        show ?thesis
        proof (cases ot)
          case (Inl e)
          with nat st info True ot Suc.prems show ?thesis
            using walk_open_failed [OF True, where p = p and e = e]
            by (auto simp: Stat_def OpenFile_def split: if_splits)
        next
          case (Inr f)
          note f = Inr
          obtain ls s3 where ls: "fs_Readdir b f 0 s2 = (ls, s3)" by (cases "fs_Readdir b f 0 s2")
          obtain c s4 where c: "fs_Close b f s3 = (c, s4)" by (cases "fs_Close b f s3")
          let ?log4 = "log @ [Called_Stat p (Inr info), Called_OpenFile p O_RDONLY 0 (Inr f),
                              Called_Readdir f 0 ls, Called_Close f c]"
          show ?thesis
          proof (cases ls)
            case (Inl e)
            with nat st info True ot f ls c Suc.prems show ?thesis
              using walk_readdir_failed [OF True, where p = p and e = e and f = f and c = c]
              by (auto simp: Stat_def OpenFile_def)
          next
            case (Inr infos)
            note ls_eq = Inr
            from nat st info True ot f ls c Inr Suc.prems obtain r5 s5 log5 where
              loop: "RemoveAll_children (RemoveAll depth (New (logged b))) p infos (s4, ?log4)
                       = Some (r5, (s5, log5))"
              by (auto simp: Stat_def OpenFile_def split: option.splits)
            have step: "\<forall>q s0 log0 r0 s'' log''.
                RemoveAll depth (New (logged b)) q (s0, log0) = Some (r0, (s'', log'')) \<longrightarrow>
                (\<exists>evs. log'' = log0 @ evs \<and> walk q r0 evs)"
              using Suc.IH by blast
            from RemoveAll_children_walks [OF step loop]
            obtain evs where evs: "log5 = ?log4 @ evs" "walks p infos r5 evs"
              by blast
            show ?thesis
            proof (cases r5)
              case (Some e)
              with nat st info True ot f ls c Inr Suc.prems loop
              have "r = Some e" "log' = log5"
                by (simp_all add: Stat_def OpenFile_def)
              with evs Some ls_eq show ?thesis
                using walk_child_failed [OF True, where p = p and infos = infos and e = e and evs = evs and f = f and c = c]
                by auto
            next
              case None
              with nat st info True ot f ls c Inr Suc.prems loop
              have fin: "RemoveAll_final (New (logged b)) p (s5, log5) = (r, (s', log'))"
                by (simp add: Stat_def OpenFile_def)
              obtain x s6 where x: "fs_Remove b p s5 = (x, s6)" by (cases "fs_Remove b p s5")
              show ?thesis
              proof (cases x)
                case None
                with fin x have "r = None" "log' = log5 @ [Called_Remove p None]"
                  by (simp_all add: RemoveAll_final_def Remove_def)
                with evs \<open>r5 = None\<close> ls_eq show ?thesis
                  using walk_dir_removed [OF True, where p = p and infos = infos and evs = evs and f = f and c = c]
                  by auto
              next
                case (Some e)
                obtain st2 s7 where st2: "fs_Stat b p s6 = (st2, s7)" by (cases "fs_Stat b p s6")
                with fin x Some
                have "r = (if os_IsNotExist (err_of st2) then None else Some e)"
                  "log' = log5 @ [Called_Remove p (Some e), Called_Stat p st2]"
                  by (auto simp: RemoveAll_final_def Remove_def Stat_def split: if_splits)
                with evs \<open>r5 = None\<close> ls_eq show ?thesis
                  using walk_dir_checked [OF True, where p = p and infos = infos and evs = evs and st = st2 and e = e and f = f and c = c]
                  by auto
              qed
            qed
          qed
        qed
      qed
    qed
  qed
qed

lemma open_handles_append:
  "open_handles (xs @ ys) hs = open_handles ys (open_handles xs hs)"
  by (induction xs hs rule: open_handles.induct) simp_all

lemma walk_open_handles:
  "(walk p r evs \<longrightarrow> (\<forall>hs. open_handles (evs :: 'h event list) hs = hs))
   \<and> (walks q infos r' evs' \<longrightarrow> (\<forall>hs. open_handles (evs' :: 'h event list) hs = hs))"
  by (induction rule: walk_walks.induct) (simp_all add: open_handles_append)



section \<open>Errors, handles and the order of the walk\<close>

text \<open>
  Claim C5. Without a native \<^verbatim>\<open>RemoveAll\<close>, the children of a directory are removed in
  the order of the listing: when the children listed before \<open>child\<close> have been removed and
  the recursive \<^verbatim>\<open>RemoveAll\<close> of \<open>child\<close> returns an error, \<^verbatim>\<open>RemoveAll\<close> of the directory
  returns that same error, and it returns in the state and with the log in which the
  recursive call returned. No call is made on the backing filesystem after the failure:
  no \<^verbatim>\<open>Remove\<close> of a child listed after it, and no \<^verbatim>\<open>Remove\<close> of the directory.
\<close>

theorem RemoveAll_fail_fast:
  assumes "fs_RemoveAll b = None"
    and "fs_Stat b pathname s = (Inr info, s1)"
    and "IsDir info"
    and "fs_OpenFile b pathname O_RDONLY 0 s1 = (Inr f, s2)"
    and "fs_Readdir b f 0 s2 = (Inr (before @ child # after), s3)"
    and "fs_Close b f s3 = (closed, s4)"
    and "Name child \<noteq> ''.''"
    and "Name child \<noteq> ''..''"
    and "RemoveAll_children (RemoveAll depth (New (logged b))) pathname before
           (s4, log @ [Called_Stat pathname (Inr info), Called_OpenFile pathname O_RDONLY 0 (Inr f),
                       Called_Readdir f 0 (Inr (before @ child # after)), Called_Close f closed])
         = Some (None, (s5, log5))"
    and "RemoveAll depth (New (logged b)) (path_Join [pathname, Name child]) (s5, log5)
         = Some (Some err, (s6, log6))"
  shows "RemoveAll (Suc depth) (New (logged b)) pathname (s, log) = Some (Some err, (s6, log6))"
  using assms by (simp add: Stat_def OpenFile_def RemoveAll_children_append Let_def)

theorem RemoveAll_fail_fast_witness:
  "RemoveAll (Suc (Suc (Suc 0)))
     (New (logged (conditionalErrorFS (noRemoveAllFS (memfs False))
            (Some (failing_remove ''/parent/child/file.txt'' (ErrOther ''remove error''))))))
     ''/parent''
     ([([''parent''], True), ([''parent'', ''a.txt''], False), ([''parent'', ''child''], True),
       ([''parent'', ''child'', ''file.txt''], False), ([''parent'', ''z.txt''], False)], [])
   = Some (Some (ErrOther ''remove error''),
       ([([''parent''], True), ([''parent'', ''child''], True),
         ([''parent'', ''child'', ''file.txt''], False), ([''parent'', ''z.txt''], False)],
        [Called_Stat ''/parent'' (Inr \<lparr>Name = ''parent'', IsDir = True\<rparr>),
         Called_OpenFile ''/parent'' O_RDONLY 0 (Inr [''parent'']),
         Called_Readdir [''parent''] 0
           (Inr [\<lparr>Name = ''a.txt'', IsDir = False\<rparr>, \<lparr>Name = ''child'', IsDir = True\<rparr>,
                 \<lparr>Name = ''z.txt'', IsDir = False\<rparr>]),
         Called_Close [''parent''] None,
         Called_Stat ''/parent/a.txt'' (Inr \<lparr>Name = ''a.txt'', IsDir = False\<rparr>),
         Called_Remove ''/parent/a.txt'' None,
         Called_Stat ''/parent/child'' (Inr \<lparr>Name = ''child'', IsDir = True\<rparr>),
         Called_OpenFile ''/parent/child'' O_RDONLY 0 (Inr [''parent'', ''child'']),
         Called_Readdir [''parent'', ''child''] 0 (Inr [\<lparr>Name = ''file.txt'', IsDir = False\<rparr>]),
         Called_Close [''parent'', ''child''] None,
         Called_Stat ''/parent/child/file.txt'' (Inr \<lparr>Name = ''file.txt'', IsDir = False\<rparr>),
         Called_Remove ''/parent/child/file.txt'' (Some (ErrOther ''remove error''))]))"
proof -
  let ?b = "conditionalErrorFS (noRemoveAllFS (memfs False))
              (Some (failing_remove ''/parent/child/file.txt'' (ErrOther ''remove error'')))"
  let ?st = "[([''parent''], True), ([''parent'', ''a.txt''], False), ([''parent'', ''child''], True),
              ([''parent'', ''child'', ''file.txt''], False), ([''parent'', ''z.txt''], False)]"
  let ?st5 = "[([''parent''], True), ([''parent'', ''child''], True),
              ([''parent'', ''child'', ''file.txt''], False), ([''parent'', ''z.txt''], False)]"
  let ?parent = "\<lparr>Name = ''parent'', IsDir = True\<rparr>"
  let ?a = "\<lparr>Name = ''a.txt'', IsDir = False\<rparr>"
  let ?child = "\<lparr>Name = ''child'', IsDir = True\<rparr>"
  let ?z = "\<lparr>Name = ''z.txt'', IsDir = False\<rparr>"
  let ?log4 = "[Called_Stat ''/parent'' (Inr ?parent),
                Called_OpenFile ''/parent'' O_RDONLY 0 (Inr [''parent'']),
                Called_Readdir [''parent''] 0 (Inr ([?a] @ ?child # [?z])),
                Called_Close [''parent''] None]"
  let ?log5 = "?log4 @ [Called_Stat ''/parent/a.txt'' (Inr ?a), Called_Remove ''/parent/a.txt'' None]"
  let ?log6 = "?log5 @ [Called_Stat ''/parent/child'' (Inr ?child),
         Called_OpenFile ''/parent/child'' O_RDONLY 0 (Inr [''parent'', ''child'']),
         Called_Readdir [''parent'', ''child''] 0 (Inr [\<lparr>Name = ''file.txt'', IsDir = False\<rparr>]),
         Called_Close [''parent'', ''child''] None,
         Called_Stat ''/parent/child/file.txt'' (Inr \<lparr>Name = ''file.txt'', IsDir = False\<rparr>),
         Called_Remove ''/parent/child/file.txt'' (Some (ErrOther ''remove error''))]"
  have h1: "fs_RemoveAll ?b = None" by code_simp
  have h2: "fs_Stat ?b ''/parent'' ?st = (Inr ?parent, ?st)" by code_simp
  have h3: "IsDir ?parent" by simp
  have h4: "fs_OpenFile ?b ''/parent'' O_RDONLY 0 ?st = (Inr [''parent''], ?st)" by code_simp
  have h5: "fs_Readdir ?b [''parent''] 0 ?st = (Inr ([?a] @ ?child # [?z]), ?st)" by code_simp
  have h6: "fs_Close ?b [''parent''] ?st = (None, ?st)" by code_simp
  have h7: "Name ?child \<noteq> ''.''" by simp
  have h8: "Name ?child \<noteq> ''..''" by simp
  have h9: "RemoveAll_children (RemoveAll (Suc (Suc 0)) (New (logged ?b))) ''/parent'' [?a]
              (?st, [] @ ?log4) = Some (None, (?st5, ?log5))"
    by code_simp
  have h10: "RemoveAll (Suc (Suc 0)) (New (logged ?b)) (path_Join [''/parent'', Name ?child])
              (?st5, ?log5) = Some (Some (ErrOther ''remove error''), (?st5, ?log6))"
    by code_simp
  show ?thesis
    using RemoveAll_fail_fast [OF h1 h2 h3 h4 h5 h6 h7 h8 h9 h10] by simp
qed




text \<open>
  Claim C8. Every handle that a run of \<^verbatim>\<open>RemoveAll\<close> opens has been closed when the run
  returns: the calls of the run leave no handle open. In the walk without a native
  \<^verbatim>\<open>RemoveAll\<close>, when \<^verbatim>\<open>Readdir\<close> fails, the \<^verbatim>\<open>Close\<close> of the handle is the last call,
  made before the error of \<^verbatim>\<open>Readdir\<close> is returned.
\<close>

theorem RemoveAll_closes_handles:
  "(RemoveAll depth (New (logged b)) pathname (s, log) = Some (r, (s', log')) \<longrightarrow>
      (\<exists>evs. log' = log @ evs \<and> open_handles evs [] = []))
   \<and> (fs_RemoveAll b = None \<longrightarrow> fs_Stat b pathname s = (Inr info, s1) \<longrightarrow> IsDir info \<longrightarrow>
      fs_OpenFile b pathname O_RDONLY 0 s1 = (Inr f, s2) \<longrightarrow>
      fs_Readdir b f 0 s2 = (Inl e, s3) \<longrightarrow> fs_Close b f s3 = (closed, s4) \<longrightarrow>
      RemoveAll (Suc depth) (New (logged b)) pathname (s, log) =
        Some (Some e, (s4, log @ [Called_Stat pathname (Inr info),
                                  Called_OpenFile pathname O_RDONLY 0 (Inr f),
                                  Called_Readdir f 0 (Inl e), Called_Close f closed])))"
proof (intro conjI impI)
  assume "RemoveAll depth (New (logged b)) pathname (s, log) = Some (r, (s', log'))"
  from RemoveAll_walk [OF this] obtain evs where "log' = log @ evs" "walk pathname r evs"
    by blast
  with walk_open_handles [of pathname r evs] show "\<exists>evs. log' = log @ evs \<and> open_handles evs [] = []"
    by auto
next
  assume "fs_RemoveAll b = None" "fs_Stat b pathname s = (Inr info, s1)" "IsDir info"
    "fs_OpenFile b pathname O_RDONLY 0 s1 = (Inr f, s2)"
    "fs_Readdir b f 0 s2 = (Inl e, s3)" "fs_Close b f s3 = (closed, s4)"
  then show "RemoveAll (Suc depth) (New (logged b)) pathname (s, log) =
        Some (Some e, (s4, log @ [Called_Stat pathname (Inr info),
                                  Called_OpenFile pathname O_RDONLY 0 (Inr f),
                                  Called_Readdir f 0 (Inl e), Called_Close f closed]))"
    by (simp add: Stat_def OpenFile_def)
qed

theorem RemoveAll_closes_handles_witness:
  "open_handles
     [Called_Stat ''/a'' (Inr \<lparr>Name = ''a'', IsDir = True\<rparr>),
      Called_OpenFile ''/a'' O_RDONLY 0 (Inr [''a'']),
      Called_Readdir [''a''] 0 (Inr [\<lparr>Name = ''b'', IsDir = True\<rparr>]),
      Called_Close [''a''] None,
      Called_Stat ''/a/b'' (Inr \<lparr>Name = ''b'', IsDir = True\<rparr>),
      Called_OpenFile ''/a/b'' O_RDONLY 0 (Inr [''a'', ''b'']),
      Called_Readdir [''a'', ''b''] 0 (Inr []),
      Called_Close [''a'', ''b''] None,
      Called_Remove ''/a/b'' None,
      Called_Remove ''/a'' None] [] = []
   \<and> RemoveAll (Suc 0)
        (New (logged (readdirErrorFS (noRemoveAllFS (memfs False)) (Some (ErrOther ''readdir error'')))))
        ''/testdir'' ([([''testdir''], True)], []) =
      Some (Some (ErrOther ''readdir error''),
        ([([''testdir''], True)],
         [Called_Stat ''/testdir'' (Inr \<lparr>Name = ''testdir'', IsDir = True\<rparr>),
          Called_OpenFile ''/testdir'' O_RDONLY 0 (Inr [''testdir'']),
          Called_Readdir [''testdir''] 0 (Inl (ErrOther ''readdir error'')),
          Called_Close [''testdir''] None]))"
proof -
  let ?b = "noRemoveAllFS (memfs False)"
  let ?E = "readdirErrorFS (noRemoveAllFS (memfs False)) (Some (ErrOther ''readdir error''))"
  let ?st = "[([''testdir''], True)]"
  let ?info = "\<lparr>Name = ''testdir'', IsDir = True\<rparr>"
  have run: "RemoveAll (Suc (Suc 0)) (New (logged ?b)) ''/a''
               ([([''a''], True), ([''a'', ''b''], True)], []) =
      Some (None, ([],
        [Called_Stat ''/a'' (Inr \<lparr>Name = ''a'', IsDir = True\<rparr>),
         Called_OpenFile ''/a'' O_RDONLY 0 (Inr [''a'']),
         Called_Readdir [''a''] 0 (Inr [\<lparr>Name = ''b'', IsDir = True\<rparr>]),
         Called_Close [''a''] None,
         Called_Stat ''/a/b'' (Inr \<lparr>Name = ''b'', IsDir = True\<rparr>),
         Called_OpenFile ''/a/b'' O_RDONLY 0 (Inr [''a'', ''b'']),
         Called_Readdir [''a'', ''b''] 0 (Inr []),
         Called_Close [''a'', ''b''] None,
         Called_Remove ''/a/b'' None,
         Called_Remove ''/a'' None]))"
    by code_simp
  have e1: "fs_RemoveAll ?E = None" by code_simp
  have e2: "fs_Stat ?E ''/testdir'' ?st = (Inr ?info, ?st)" by code_simp
  have e3: "IsDir ?info" by simp
  have e4: "fs_OpenFile ?E ''/testdir'' O_RDONLY 0 ?st = (Inr [''testdir''], ?st)" by code_simp
  have e5: "fs_Readdir ?E [''testdir''] 0 ?st = (Inl (ErrOther ''readdir error''), ?st)" by code_simp
  have e6: "fs_Close ?E [''testdir''] ?st = (None, ?st)" by code_simp
  from RemoveAll_closes_handles [where depth = "Suc (Suc 0)" and b = ?b and pathname = "''/a''"
      and s = "[([''a''], True), ([''a'', ''b''], True)]" and log = "[]"] run
  have first: "open_handles
     [Called_Stat ''/a'' (Inr \<lparr>Name = ''a'', IsDir = True\<rparr>),
      Called_OpenFile ''/a'' O_RDONLY 0 (Inr [''a'']),
      Called_Readdir [''a''] 0 (Inr [\<lparr>Name = ''b'', IsDir = True\<rparr>]),
      Called_Close [''a''] None,
      Called_Stat ''/a/b'' (Inr \<lparr>Name = ''b'', IsDir = True\<rparr>),
      Called_OpenFile ''/a/b'' O_RDONLY 0 (Inr [''a'', ''b'']),
      Called_Readdir [''a'', ''b''] 0 (Inr []),
      Called_Close [''a'', ''b''] None,
      Called_Remove ''/a/b'' None,
      Called_Remove ''/a'' None] [] = []"
    by simp
  from RemoveAll_closes_handles [where depth = 0 and b = ?E and pathname = "''/testdir''"
      and s = ?st and log = "[]" and info = ?info and ?s1.0 = ?st and f = "[''testdir'']"
      and ?s2.0 = ?st and e = "ErrOther ''readdir error''" and ?s3.0 = ?st and closed = None
      and ?s4.0 = ?st]
    e1 e2 e3 e4 e5 e6
  have second: "RemoveAll (Suc 0) (New (logged ?E)) ''/testdir'' (?st, []) =
      Some (Some (ErrOther ''readdir error''),
        (?st,
         [Called_Stat ''/testdir'' (Inr ?info),
          Called_OpenFile ''/testdir'' O_RDONLY 0 (Inr [''testdir'']),
          Called_Readdir [''testdir''] 0 (Inl (ErrOther ''readdir error'')),
          Called_Close [''testdir''] None]))"
    by simp
  from first second show ?thesis by simp
qed

section \<open>Splitting, joining and cleaning paths\<close>

lemma strings_Split_not_Nil [simp]: "strings_Split xs sep \<noteq> []"
  by (induction xs) (auto split: list.splits)

lemma strings_Split_append:
  "strings_Split (xs @ sep # ys) sep = strings_Split xs sep @ strings_Split ys sep"
  by (induction xs) (auto split: list.splits)

lemma strings_Split_plain: "sep \<notin> set xs \<Longrightarrow> strings_Split xs sep = [xs]"
  by (induction xs) auto

lemma set_strings_Split: "e \<in> set (strings_Split xs sep) \<Longrightarrow> sep \<notin> set e"
  by (induction xs arbitrary: e) (auto split: if_splits list.splits)

lemma strings_Split_Join:
  "es \<noteq> [] \<Longrightarrow> \<forall>e\<in>set es. sep \<notin> set e \<Longrightarrow>
   strings_Split (strings_Join es [sep]) sep = es"
proof (induction es "[sep]" rule: strings_Join.induct)
  case 1
  then show ?case by simp
next
  case (2 x)
  then show ?case by (simp add: strings_Split_plain)
next
  case (3 x y zs)
  then show ?case
    using strings_Split_append [of x sep "strings_Join (y # zs) [sep]"]
    by (simp add: strings_Split_plain)
qed


lemma foldl_clean_step_plain:
  "list_all plain_name names \<Longrightarrow> foldl (clean_step r) acc names = rev names @ acc"
  by (induction names arbitrary: acc) (auto simp: plain_name_def)

lemma clean_elems_plain: "list_all plain_name names \<Longrightarrow> clean_elems r names = names"
  by (simp add: clean_elems_def foldl_clean_step_plain)

lemma clean_step_keeps_plain:
  "list_all plain_name acc \<Longrightarrow> CHR ''/'' \<notin> set e \<Longrightarrow> list_all plain_name (clean_step True acc e)"
  by (cases acc) (auto simp: plain_name_def)

lemma foldl_clean_step_keeps_plain:
  "list_all plain_name acc \<Longrightarrow> \<forall>e\<in>set es. CHR ''/'' \<notin> set e \<Longrightarrow>
   list_all plain_name (foldl (clean_step True) acc es)"
proof (induction es arbitrary: acc)
  case Nil
  then show ?case by simp
next
  case (Cons e es)
  from Cons.prems have "list_all plain_name (clean_step True acc e)"
    by (intro clean_step_keeps_plain) auto
  with Cons show ?case by simp
qed

lemma clean_elems_True_plain:
  "\<forall>e\<in>set es. CHR ''/'' \<notin> set e \<Longrightarrow> list_all plain_name (clean_elems True es)"
  using foldl_clean_step_keeps_plain [of "[]" es] by (simp add: clean_elems_def)

lemma mem_key_plain: "list_all plain_name (mem_key p)"
  unfolding mem_key_def by (rule clean_elems_True_plain) (auto dest: set_strings_Split)

lemma clean_elems_append:
  "clean_elems r (xs @ ys) = rev (foldl (clean_step r) (rev (clean_elems r xs)) ys)"
  by (simp add: clean_elems_def)

lemma clean_elems_snoc_plain:
  "plain_name n \<Longrightarrow> clean_elems r (xs @ [n]) = clean_elems r xs @ [n]"
  by (auto simp: clean_elems_def plain_name_def)

lemma clean_step_False_True:
  assumes "''..'' \<notin> set acc"
  shows "\<exists>k'. clean_step False (acc @ replicate k ''..'') e = clean_step True acc e @ replicate k' ''..''
              \<and> ''..'' \<notin> set (clean_step True acc e)"
proof (cases "e = [] \<or> e = ''.''")
  case True
  with assms show ?thesis by auto
next
  case False
  note e = False
  show ?thesis
  proof (cases "e = ''..''")
    case False
    with e assms show ?thesis by auto
  next
    case True
    show ?thesis
    proof (cases acc)
      case (Cons t ts)
      with True assms show ?thesis by auto
    next
      case Nil
      show ?thesis
      proof (cases k)
        case 0
        with Nil True show ?thesis by (auto intro: exI [of _ "Suc 0"])
      next
        case (Suc j)
        with Nil True show ?thesis by (auto intro: exI [of _ "Suc (Suc j)"])
      qed
    qed
  qed
qed

lemma foldl_clean_step_False_True:
  "''..'' \<notin> set acc \<Longrightarrow>
   \<exists>k'. foldl (clean_step False) (acc @ replicate k ''..'') es
           = foldl (clean_step True) acc es @ replicate k' ''..''"
proof (induction es arbitrary: acc k)
  case Nil
  then show ?case by auto
next
  case (Cons e es)
  from clean_step_False_True [OF Cons.prems, of k e] obtain k' where
    k': "clean_step False (acc @ replicate k ''..'') e = clean_step True acc e @ replicate k' ''..''"
    "''..'' \<notin> set (clean_step True acc e)"
    by blast
  from Cons.IH [OF k'(2), of k'] k'(1) show ?case by simp
qed

lemma clean_elems_False_True:
  "\<exists>k. clean_elems False es = replicate k ''..'' @ clean_elems True es"
proof -
  from foldl_clean_step_False_True [of "[]" 0 es] obtain k where
    "foldl (clean_step False) [] es = foldl (clean_step True) [] es @ replicate k ''..''"
    by auto
  then show ?thesis by (auto simp: clean_elems_def)
qed

lemma foldl_clean_step_dotdots: "foldl (clean_step True) [] (replicate k ''..'') = []"
  by (induction k) auto

lemma clean_elems_True_dotdots:
  "clean_elems True (replicate k ''..'' @ es) = clean_elems True es"
  by (simp add: clean_elems_def foldl_clean_step_dotdots)

lemma clean_elems_True_idem:
  assumes "\<forall>e\<in>set es. CHR ''/'' \<notin> set e"
  shows "clean_elems True (clean_elems r es) = clean_elems True es"
proof (cases r)
  case True
  with clean_elems_True_plain [OF assms] show ?thesis by (simp add: clean_elems_plain)
next
  case False
  from clean_elems_False_True [of es] obtain k where
    "clean_elems False es = replicate k ''..'' @ clean_elems True es"
    by blast
  with False clean_elems_True_plain [OF assms] show ?thesis
    by (simp add: clean_elems_True_dotdots clean_elems_plain)
qed

lemma slash_free_clean_elems:
  "\<forall>e\<in>set es. CHR ''/'' \<notin> set e \<Longrightarrow> \<forall>e\<in>set (clean_elems r es). CHR ''/'' \<notin> set e"
proof -
  assume es: "\<forall>e\<in>set es. CHR ''/'' \<notin> set e"
  have "\<forall>e\<in>set acc. CHR ''/'' \<notin> set e \<Longrightarrow> \<forall>e\<in>set (foldl (clean_step r) acc es). CHR ''/'' \<notin> set e"
    for acc
    using es
  proof (induction es arbitrary: acc)
    case Nil
    then show ?case by simp
  next
    case (Cons a es)
    have "\<forall>e\<in>set (clean_step r acc a). CHR ''/'' \<notin> set e"
      using Cons.prems by (cases acc) (auto split: if_splits)
    with Cons show ?case by simp
  qed
  from this [of "[]"] show ?thesis by (simp add: clean_elems_def)
qed

lemma non_empty_clean_elems: "[] \<notin> set (clean_elems r es)"
proof -
  have "[] \<notin> set acc \<Longrightarrow> [] \<notin> set (foldl (clean_step r) acc es)" for acc
  proof (induction es arbitrary: acc)
    case Nil
    then show ?case by simp
  next
    case (Cons a es)
    have "[] \<notin> set (clean_step r acc a)"
      using Cons.prems by (cases acc) (auto split: if_splits)
    with Cons show ?case by simp
  qed
  from this [of "[]"] show ?thesis by (simp add: clean_elems_def)
qed

lemma strings_Join_Nil_iff: "[] \<notin> set es \<Longrightarrow> strings_Join es sep = [] \<longleftrightarrow> es = []"
  by (induction es sep rule: strings_Join.induct) auto


lemma clean_elems_Split_Join:
  assumes "\<forall>e\<in>set es. CHR ''/'' \<notin> set e"
  shows "clean_elems True (strings_Split (strings_Join es ''/'') CHR ''/'') = clean_elems True es"
proof (cases "es = []")
  case True
  then show ?thesis by (simp add: clean_elems_def)
next
  case False
  with assms show ?thesis by (simp add: strings_Split_Join)
qed

lemma strings_Split_slash_Cons:
  "strings_Split (CHR ''/'' # ys) CHR ''/'' = [] # strings_Split ys CHR ''/''"
  by simp

lemma clean_elems_Nil_Cons: "clean_elems r ([] # es) = clean_elems r es"
  by (simp add: clean_elems_def)

lemma mem_key_Clean: "mem_key (path_Clean q) = mem_key q"
proof -
  let ?out = "clean_elems (is_rooted q) (strings_Split q CHR ''/'')"
  have sf: "\<forall>e\<in>set (strings_Split q CHR ''/''). CHR ''/'' \<notin> set e"
    by (auto dest: set_strings_Split)
  then have out_sf: "\<forall>e\<in>set ?out. CHR ''/'' \<notin> set e"
    by (rule slash_free_clean_elems)
  have idem: "clean_elems True ?out = mem_key q"
    unfolding mem_key_def by (rule clean_elems_True_idem [OF sf])
  have joined: "mem_key (strings_Join ?out ''/'') = mem_key q"
    using clean_elems_Split_Join [OF out_sf] idem by (simp add: mem_key_def)
  show ?thesis
  proof (cases "is_rooted q")
    case True
    then have "path_Clean q = CHR ''/'' # strings_Join ?out ''/''"
      by (simp add: path_Clean_def Let_def)
    then have "mem_key (path_Clean q) = mem_key (strings_Join ?out ''/'')"
      by (simp add: mem_key_def clean_elems_Nil_Cons)
    with joined show ?thesis by simp
  next
    case False
    show ?thesis
    proof (cases "?out = []")
      case True
      with False have "path_Clean q = ''.''"
        by (simp add: path_Clean_def Let_def)
      moreover have "mem_key ''.'' = []"
        by (simp add: mem_key_def clean_elems_def)
      moreover from True idem have "mem_key q = []"
        by (simp add: clean_elems_def)
      ultimately show ?thesis by simp
    next
      case nonempty: False
      have "[] \<notin> set ?out" by (rule non_empty_clean_elems)
      with nonempty have "strings_Join ?out ''/'' \<noteq> []"
        by (simp add: strings_Join_Nil_iff)
      with False have "path_Clean q = strings_Join ?out ''/''"
        by (simp add: path_Clean_def Let_def)
      with joined show ?thesis by simp
    qed
  qed
qed

lemma mem_key_snoc:
  assumes "plain_name n"
  shows "mem_key (p @ CHR ''/'' # n) = mem_key p @ [n]"
proof -
  from assms have "CHR ''/'' \<notin> set n" by (simp add: plain_name_def)
  then have "strings_Split (p @ CHR ''/'' # n) CHR ''/'' = strings_Split p CHR ''/'' @ [n]"
    by (simp add: strings_Split_append strings_Split_plain)
  with assms show ?thesis by (simp add: mem_key_def clean_elems_snoc_plain)
qed

lemma mem_key_Join:
  assumes "plain_name n"
  shows "mem_key (path_Join [p, n]) = mem_key p @ [n]"
proof (cases "p = []")
  case True
  from assms have n: "n \<noteq> []" "CHR ''/'' \<notin> set n" by (simp_all add: plain_name_def)
  with True have "path_Join [p, n] = path_Clean n"
    by (simp add: path_Join_def)
  moreover from n assms have "mem_key n = [n]"
    by (simp add: mem_key_def strings_Split_plain clean_elems_plain)
  moreover from True have "mem_key p = []"
    by (simp add: mem_key_def clean_elems_def)
  ultimately show ?thesis by (simp add: mem_key_Clean)
next
  case False
  from assms have "n \<noteq> []" by (simp add: plain_name_def)
  with False have "path_Join [p, n] = path_Clean (p @ CHR ''/'' # n)"
    by (simp add: path_Join_def)
  with assms show ?thesis by (simp add: mem_key_Clean mem_key_snoc)
qed

lemma path_Clean_rooted:
  assumes "\<forall>e\<in>set es. CHR ''/'' \<notin> set e"
  shows "path_Clean (''/'' @ strings_Join es ''/'') = rooted_path (clean_elems True es)"
proof -
  have "is_rooted (''/'' @ strings_Join es ''/'')"
    by (simp add: is_rooted_def)
  moreover have "clean_elems True (strings_Split (''/'' @ strings_Join es ''/'') CHR ''/'')
      = clean_elems True es"
    using clean_elems_Split_Join [OF assms] by (simp add: clean_elems_Nil_Cons)
  ultimately show ?thesis
    by (simp add: path_Clean_def rooted_path_def Let_def)
qed

lemma strings_Join_snoc:
  "strings_Join (es @ [c]) sep = (if es = [] then c else strings_Join es sep @ sep @ c)"
  by (induction es sep rule: strings_Join.induct) auto

lemma path_Clean_slash_rooted:
  "is_rooted q \<Longrightarrow> path_Clean (CHR ''/'' # q) = path_Clean q"
  by (simp add: path_Clean_def is_rooted_def clean_elems_Nil_Cons)

lemma path_Join_rooted_path:
  assumes st: "list_all plain_name st" and c: "c \<noteq> []" "CHR ''/'' \<notin> set c"
  shows "path_Join [rooted_path st, c] = rooted_path (clean_elems True (st @ [c]))"
proof -
  have sf: "\<forall>e\<in>set (st @ [c]). CHR ''/'' \<notin> set e"
    using st c by (auto simp: list_all_iff plain_name_def)
  have "path_Join [rooted_path st, c] = path_Clean (rooted_path st @ CHR ''/'' # c)"
    using c by (simp add: path_Join_def rooted_path_def)
  also have "\<dots> = path_Clean (''/'' @ strings_Join (st @ [c]) ''/'')"
  proof (cases "st = []")
    case True
    then show ?thesis
      using path_Clean_slash_rooted [of "CHR ''/'' # c"]
      by (simp add: rooted_path_def is_rooted_def)
  next
    case False
    then show ?thesis
      by (simp add: rooted_path_def strings_Join_snoc)
  qed
  also have "\<dots> = rooted_path (clean_elems True (st @ [c]))"
    by (rule path_Clean_rooted [OF sf])
  finally show ?thesis .
qed

section \<open>\<^verbatim>\<open>RemoveAll\<close> on the filesystem in memory\<close>

lemma memfs_ops [simp]:
  "fs_Stat (noRemoveAllFS (memfs dots)) = mem_Stat"
  "fs_OpenFile (noRemoveAllFS (memfs dots)) = mem_OpenFile"
  "fs_Readdir (noRemoveAllFS (memfs dots)) = mem_Readdir dots"
  "fs_Close (noRemoveAllFS (memfs dots)) = mem_Close"
  "fs_Remove (noRemoveAllFS (memfs dots)) = mem_Remove"
  "fs_RemoveAll (noRemoveAllFS (memfs dots)) = None"
  by (simp_all add: noRemoveAllFS_def memfs_def)

lemma mem_Remove_subset: "mem_Remove name st = (r, st') \<Longrightarrow> set st' \<subseteq> set st"
  by (auto simp: mem_Remove_def Let_def split: option.splits if_splits)

lemma RemoveAll_children_subset:
  assumes step: "\<forall>q t r t'. recurse q t = Some (r, t') \<longrightarrow> set t' \<subseteq> set t"
  shows "RemoveAll_children recurse p infos st = Some (r, st') \<Longrightarrow> set st' \<subseteq> set st"
proof (induction infos arbitrary: st)
  case Nil
  then show ?case by simp
next
  case (Cons info infos)
  show ?case
  proof (cases "Name info = ''.'' \<or> Name info = ''..''")
    case True
    with Cons show ?thesis by (simp add: Let_def)
  next
    case False
    with Cons.prems obtain r1 t1 where r1: "recurse (path_Join [p, Name info]) st = Some (r1, t1)"
      by (auto simp: Let_def split: option.splits)
    with step have sub1: "set t1 \<subseteq> set st" by blast
    show ?thesis
    proof (cases r1)
      case None
      with False Cons.prems r1 have "RemoveAll_children recurse p infos t1 = Some (r, st')"
        by (simp add: Let_def)
      from Cons.IH [OF this] sub1 show ?thesis by blast
    next
      case (Some e)
      with False Cons.prems r1 sub1 show ?thesis by (simp add: Let_def)
    qed
  qed
qed

lemma RemoveAll_memfs_subset:
  "RemoveAll depth (New (noRemoveAllFS (memfs dots))) p st = Some (r, st') \<Longrightarrow> set st' \<subseteq> set st"
proof (induction depth arbitrary: p st r st')
  case 0
  then show ?case by simp
next
  case (Suc depth)
  let ?F = "New (noRemoveAllFS (memfs dots))"
  have step: "\<forall>q t r t'. RemoveAll depth ?F q t = Some (r, t') \<longrightarrow> set t' \<subseteq> set t"
    using Suc.IH by blast
  have stat: "snd (mem_Stat p t) = t" for t
    by (simp add: mem_Stat_def split: option.splits)
  show ?case
  proof (cases "fst (mem_Stat p st)")
    case (Inl e)
    with Suc.prems stat [of st] show ?thesis
      by (cases "mem_Stat p st") (auto simp: Stat_def split: if_splits)
  next
    case (Inr info)
    then have st1: "mem_Stat p st = (Inr info, st)"
      using stat [of st] by (cases "mem_Stat p st") simp
    show ?thesis
    proof (cases "IsDir info")
      case False
      with Suc.prems st1 have "mem_Remove p st = (r, st')"
        by (simp add: Stat_def Remove_def)
      then show ?thesis by (rule mem_Remove_subset)
    next
      case True
      show ?thesis
      proof (cases "mem_find st (mem_key p)")
        case None
        with Suc.prems st1 True show ?thesis
          by (simp add: Stat_def OpenFile_def mem_OpenFile_def)
      next
        case (Some d)
        then have op: "mem_OpenFile p O_RDONLY 0 st = (Inr (mem_key p), st)"
          by (simp add: mem_OpenFile_def)
        obtain ls where ls: "mem_Readdir dots (mem_key p) 0 st = (ls, st)"
          by (cases "mem_find st (mem_key p) = Some True") (simp_all add: mem_Readdir_def)
        show ?thesis
        proof (cases ls)
          case (Inl e)
          with Suc.prems st1 True op ls show ?thesis
            by (simp add: Stat_def OpenFile_def mem_Close_def)
        next
          case (Inr infos)
          with Suc.prems st1 True op ls obtain r5 t5 where
            loop: "RemoveAll_children (RemoveAll depth ?F) p infos st = Some (r5, t5)"
            by (auto simp: Stat_def OpenFile_def mem_Close_def split: option.splits)
          from RemoveAll_children_subset [OF step loop] have sub5: "set t5 \<subseteq> set st" .
          show ?thesis
          proof (cases r5)
            case (Some e)
            with Suc.prems st1 True op ls Inr loop sub5 show ?thesis
              by (simp add: Stat_def OpenFile_def mem_Close_def)
          next
            case None
            with Suc.prems st1 True op ls Inr loop
            have fin: "RemoveAll_final ?F p t5 = (r, st')"
              by (simp add: Stat_def OpenFile_def mem_Close_def)
            obtain x t6 where x: "mem_Remove p t5 = (x, t6)" by (cases "mem_Remove p t5")
            from mem_Remove_subset [OF x] have "set t6 \<subseteq> set t5" .
            moreover from fin x stat [of t6] have "st' = t6"
              by (cases "mem_Stat p t6")
                 (auto simp: RemoveAll_final_def Remove_def Stat_def split: option.splits if_splits)
            ultimately show ?thesis using sub5 by blast
          qed
        qed
      qed
    qed
  qed
qed


lemma fold_max_length_ge: "m \<le> fold (\<lambda>(k, d). max (length k)) st m"
proof (induction st arbitrary: m)
  case Nil
  then show ?case by simp
next
  case (Cons a st)
  obtain k d where a: "a = (k, d)" by (cases a)
  have "m \<le> max (length k) m" by simp
  also have "\<dots> \<le> fold (\<lambda>(k, d). max (length k)) st (max (length k) m)" by (rule Cons.IH)
  finally show ?case by (simp add: a)
qed

lemma fold_max_length_bound:
  "(k, d) \<in> set st \<Longrightarrow> length k \<le> fold (\<lambda>(k, d). max (length k)) st m"
proof (induction st arbitrary: m)
  case Nil
  then show ?case by simp
next
  case (Cons a st)
  show ?case
  proof (cases "a = (k, d)")
    case True
    have "length k \<le> max (length k) m" by simp
    also have "\<dots> \<le> fold (\<lambda>(k, d). max (length k)) st (max (length k) m)"
      by (rule fold_max_length_ge)
    finally show ?thesis by (simp add: True)
  next
    case False
    with Cons.prems have "(k, d) \<in> set st" by simp
    from Cons.IH [OF this] show ?thesis by (cases a) simp
  qed
qed

lemma mem_depth_bound: "(k, d) \<in> set st \<Longrightarrow> length k \<le> mem_depth st"
  unfolding mem_depth_def by (rule fold_max_length_bound)

lemma names_ok_subset: "names_ok st \<Longrightarrow> set st' \<subseteq> set st \<Longrightarrow> names_ok st'"
  by (auto simp: names_ok_def list_all_iff)

lemma RemoveAll_children_total:
  assumes step: "\<forall>info\<in>set infos. Name info = ''.'' \<or> Name info = ''..'' \<or>
      (\<forall>t. Inv t \<longrightarrow> (\<exists>r t'. recurse (path_Join [p, Name info]) t = Some (r, t') \<and> Inv t'))"
    and inv: "Inv s"
  shows "\<exists>r s'. RemoveAll_children recurse p infos s = Some (r, s')"
  using assms
proof (induction infos arbitrary: s)
  case Nil
  then show ?case by simp
next
  case (Cons info infos)
  from Cons.prems have rest: "\<forall>info\<in>set infos. Name info = ''.'' \<or> Name info = ''..'' \<or>
      (\<forall>t. Inv t \<longrightarrow> (\<exists>r t'. recurse (path_Join [p, Name info]) t = Some (r, t') \<and> Inv t'))"
    by simp
  show ?case
  proof (cases "Name info = ''.'' \<or> Name info = ''..''")
    case True
    with Cons.IH [OF rest Cons.prems(2)] show ?thesis by (simp add: Let_def)
  next
    case False
    with Cons.prems obtain r1 t1 where
      r1: "recurse (path_Join [p, Name info]) s = Some (r1, t1)" and t1: "Inv t1"
      by auto
    show ?thesis
    proof (cases r1)
      case None
      with False r1 Cons.IH [OF rest t1] show ?thesis by (simp add: Let_def)
    next
      case (Some e)
      with False r1 show ?thesis by (simp add: Let_def)
    qed
  qed
qed

lemma RemoveAll_memfs_level:
  assumes children: "\<forall>(k, d)\<in>set st. k \<noteq> [] \<and> butlast k = mem_key p \<longrightarrow>
      (\<forall>t. Inv t \<longrightarrow>
         (\<exists>r t'. RemoveAll n (New (noRemoveAllFS (memfs dots))) (path_Join [p, last k]) t = Some (r, t')
                  \<and> Inv t'))"
    and inv: "Inv st"
  shows "\<exists>r st'. RemoveAll (Suc n) (New (noRemoveAllFS (memfs dots))) p st = Some (r, st')"
proof -
  let ?F = "New (noRemoveAllFS (memfs dots))"
  have stat: "snd (mem_Stat p t) = t" for t
    by (simp add: mem_Stat_def split: option.splits)
  show ?thesis
  proof (cases "fst (mem_Stat p st)")
    case (Inl e)
    with stat [of st] show ?thesis
      by (cases "mem_Stat p st") (auto simp: Stat_def)
  next
    case (Inr info)
    then have st1: "mem_Stat p st = (Inr info, st)"
      using stat [of st] by (cases "mem_Stat p st") simp
    show ?thesis
    proof (cases "IsDir info")
      case False
      with st1 show ?thesis
        by (cases "mem_Remove p st") (simp add: Stat_def Remove_def)
    next
      case True
      show ?thesis
      proof (cases "mem_find st (mem_key p)")
        case None
        with st1 True show ?thesis
          by (simp add: Stat_def OpenFile_def mem_OpenFile_def)
      next
        case (Some d)
        then have op: "mem_OpenFile p O_RDONLY 0 st = (Inr (mem_key p), st)"
          by (simp add: mem_OpenFile_def)
        obtain ls where ls: "mem_Readdir dots (mem_key p) 0 st = (ls, st)"
          by (cases "mem_find st (mem_key p) = Some True") (simp_all add: mem_Readdir_def)
        show ?thesis
        proof (cases ls)
          case (Inl e)
          with st1 True op ls show ?thesis
            by (simp add: Stat_def OpenFile_def mem_Close_def)
        next
          case (Inr infos)
          with ls have infos: "infos =
              (if dots then [\<lparr>Name = ''.'', IsDir = True\<rparr>, \<lparr>Name = ''..'', IsDir = True\<rparr>] else [])
              @ map (\<lambda>(k, d). mem_info k d) (filter (\<lambda>(k, d). k \<noteq> [] \<and> butlast k = mem_key p) st)"
            by (auto simp: mem_Readdir_def split: if_splits)
          have each: "\<forall>info\<in>set infos. Name info = ''.'' \<or> Name info = ''..'' \<or>
              (\<forall>t. Inv t \<longrightarrow>
                 (\<exists>r t'. RemoveAll n ?F (path_Join [p, Name info]) t = Some (r, t') \<and> Inv t'))"
          proof
            fix info
            assume "info \<in> set infos"
            with infos consider "Name info = ''.'' \<or> Name info = ''..''"
              | k d where "(k, d) \<in> set st" "k \<noteq> []" "butlast k = mem_key p" "info = mem_info k d"
              by (auto split: if_splits)
            then show "Name info = ''.'' \<or> Name info = ''..'' \<or>
              (\<forall>t. Inv t \<longrightarrow>
                 (\<exists>r t'. RemoveAll n ?F (path_Join [p, Name info]) t = Some (r, t') \<and> Inv t'))"
            proof cases
              case 1
              then show ?thesis by blast
            next
              case 2
              from 2(2,4) have "Name info = last k" by (simp add: mem_info_def)
              with children 2(1,2,3) show ?thesis by auto
            qed
          qed
          from RemoveAll_children_total [where Inv = Inv, OF each inv]
          obtain r5 t5 where "RemoveAll_children (RemoveAll n ?F) p infos st = Some (r5, t5)"
            by blast
          with st1 True op ls Inr show ?thesis
            by (cases r5; cases "RemoveAll_final ?F p t5")
               (simp_all add: Stat_def OpenFile_def mem_Close_def)
        qed
      qed
    qed
  qed
qed

lemma RemoveAll_memfs_enough_depth:
  "names_ok st \<Longrightarrow> \<forall>(k, d)\<in>set st. length k \<le> length (mem_key p) + n \<Longrightarrow>
   \<exists>r st'. RemoveAll (Suc n) (New (noRemoveAllFS (memfs dots))) p st = Some (r, st')"
proof (induction n arbitrary: p st)
  case 0
  have "\<forall>(k, d)\<in>set st. k \<noteq> [] \<and> butlast k = mem_key p \<longrightarrow>
      (\<forall>t. True \<longrightarrow>
         (\<exists>r t'. RemoveAll 0 (New (noRemoveAllFS (memfs dots))) (path_Join [p, last k]) t = Some (r, t')
                  \<and> True))"
  proof (clarify)
    fix k d t
    assume kd: "(k, d) \<in> set st" "k \<noteq> []" "butlast k = mem_key p"
    then have "length k = Suc (length (mem_key p))"
      by (metis append_butlast_last_id length_append_singleton)
    with 0(2) kd(1) show "\<exists>r t'. RemoveAll 0 (New (noRemoveAllFS (memfs dots))) (path_Join [p, last k]) t
        = Some (r, t') \<and> True"
      by auto
  qed
  from RemoveAll_memfs_level [where Inv = "\<lambda>t. True", OF this] show ?case by simp
next
  case (Suc n)
  let ?F = "New (noRemoveAllFS (memfs dots))"
  let ?Inv = "\<lambda>t. names_ok t \<and> (\<forall>(k, d)\<in>set t. length k \<le> length (mem_key p) + Suc n)"
  have "\<forall>(k, d)\<in>set st. k \<noteq> [] \<and> butlast k = mem_key p \<longrightarrow>
      (\<forall>t. ?Inv t \<longrightarrow>
         (\<exists>r t'. RemoveAll (Suc n) ?F (path_Join [p, last k]) t = Some (r, t') \<and> ?Inv t'))"
  proof (clarify)
    fix k d t
    assume kd: "(k, d) \<in> set st" "k \<noteq> []" "butlast k = mem_key p"
      and t: "names_ok t" "\<forall>(k, d)\<in>set t. length k \<le> length (mem_key p) + Suc n"
    from kd(1) Suc.prems(1) have "list_all plain_name k"
      by (auto simp: names_ok_def list_all_iff)
    with kd(2) have "plain_name (last k)"
      by (simp add: list_all_iff)
    then have key: "mem_key (path_Join [p, last k]) = mem_key p @ [last k]"
      by (rule mem_key_Join)
    with t(2) have "\<forall>(k', d')\<in>set t. length k' \<le> length (mem_key (path_Join [p, last k])) + n"
      by auto
    from Suc.IH [OF t(1) this] obtain r t' where
      run: "RemoveAll (Suc n) ?F (path_Join [p, last k]) t = Some (r, t')"
      by blast
    from RemoveAll_memfs_subset [OF run] have sub: "set t' \<subseteq> set t" .
    with t have "?Inv t'"
      by (auto intro: names_ok_subset)
    with run show "\<exists>r t'. RemoveAll (Suc n) ?F (path_Join [p, last k]) t = Some (r, t') \<and> ?Inv t'"
      by blast
  qed
  from RemoveAll_memfs_level [where Inv = ?Inv, OF this] Suc.prems show ?case
    by auto
qed

section \<open>Termination\<close>

text \<open>
  A deeper bound on the recursion does not change the result of a run that returned.
\<close>

lemma RemoveAll_children_mono:
  assumes step: "\<forall>q t y. recurse q t = Some y \<longrightarrow> recurse' q t = Some y"
  shows "RemoveAll_children recurse p infos s = Some x \<Longrightarrow>
         RemoveAll_children recurse' p infos s = Some x"
proof (induction infos arbitrary: s)
  case Nil
  then show ?case by simp
next
  case (Cons info infos)
  show ?case
  proof (cases "Name info = ''.'' \<or> Name info = ''..''")
    case True
    with Cons show ?thesis by (simp add: Let_def)
  next
    case False
    with Cons.prems obtain r1 t1 where r1: "recurse (path_Join [p, Name info]) s = Some (r1, t1)"
      by (auto simp: Let_def split: option.splits)
    with step have r1': "recurse' (path_Join [p, Name info]) s = Some (r1, t1)"
      by blast
    show ?thesis
    proof (cases r1)
      case None
      with False Cons.prems r1 have "RemoveAll_children recurse p infos t1 = Some x"
        by (simp add: Let_def)
      from Cons.IH [OF this] None False r1' show ?thesis by (simp add: Let_def)
    next
      case (Some e)
      with False Cons.prems r1 r1' show ?thesis by (auto simp: Let_def)
    qed
  qed
qed

lemma RemoveAll_Suc_depth:
  "RemoveAll depth filer p s = Some x \<Longrightarrow> RemoveAll (Suc depth) filer p s = Some x"
proof (induction depth arbitrary: p s x)
  case 0
  then show ?case by simp
next
  case (Suc depth)
  have step: "\<forall>q t y. RemoveAll depth filer q t = Some y \<longrightarrow> RemoveAll (Suc depth) filer q t = Some y"
    using Suc.IH by blast
  note mono = RemoveAll_children_mono [OF step]
  show ?case
  proof (cases "fs_RemoveAll (fs filer)")
    case (Some ra)
    with Suc.prems show ?thesis by simp
  next
    case None
    obtain st s1 where st: "Stat filer p s = (st, s1)" by (cases "Stat filer p s")
    show ?thesis
    proof (cases st)
      case (Inl e)
      with None st Suc.prems show ?thesis by simp
    next
      case (Inr info)
      note info = Inr
      show ?thesis
      proof (cases "IsDir info")
        case False
        with None st info Suc.prems show ?thesis by simp
      next
        case True
        obtain ot s2 where ot: "OpenFile filer p O_RDONLY 0 s1 = (ot, s2)"
          by (cases "OpenFile filer p O_RDONLY 0 s1")
        show ?thesis
        proof (cases ot)
          case (Inl e)
          with None st info True ot Suc.prems show ?thesis by simp
        next
          case (Inr f)
          obtain ls s3 where ls: "fs_Readdir (fs filer) f 0 s2 = (ls, s3)"
            by (cases "fs_Readdir (fs filer) f 0 s2")
          obtain c s4 where c: "fs_Close (fs filer) f s3 = (c, s4)"
            by (cases "fs_Close (fs filer) f s3")
          show ?thesis
          proof (cases ls)
            case (Inl e)
            with None st info True ot Inr ls c Suc.prems show ?thesis by simp
          next
            case infos: (Inr infos)
            from None st info True ot Inr ls c infos Suc.prems obtain y where
              loop: "RemoveAll_children (RemoveAll depth filer) p infos s4 = Some y"
              by (auto split: option.splits)
            from mono [OF loop]
            have loop': "RemoveAll_children (RemoveAll (Suc depth) filer) p infos s4 = Some y" .
            have "RemoveAll (Suc depth) filer p s =
                (case y of (Some err, s5) \<Rightarrow> Some (Some err, s5)
                 | (None, s5) \<Rightarrow> Some (RemoveAll_final filer p s5))"
              using None st info True ot Inr ls c infos loop
              by (simp split: prod.splits option.splits)
            moreover have "RemoveAll (Suc (Suc depth)) filer p s =
                (case y of (Some err, s5) \<Rightarrow> Some (Some err, s5)
                 | (None, s5) \<Rightarrow> Some (RemoveAll_final filer p s5))"
              using None st info True ot Inr ls c infos loop'
              by (simp split: prod.splits option.splits)
            ultimately show ?thesis using Suc.prems by simp
          qed
        qed
      qed
    qed
  qed
qed

lemma RemoveAll_more_depth:
  "RemoveAll depth filer p s = Some x \<Longrightarrow> depth \<le> m \<Longrightarrow> RemoveAll m filer p s = Some x"
proof (induction m)
  case 0
  then show ?case by simp
next
  case (Suc m)
  show ?case
  proof (cases "depth = Suc m")
    case True
    with Suc.prems show ?thesis by simp
  next
    case False
    with Suc.prems have "depth \<le> m" by simp
    from RemoveAll_Suc_depth [OF Suc.IH [OF Suc.prems(1) this]] show ?thesis .
  qed
qed


text \<open>
  Claim C9. On the filesystem in memory, whose listings may start with \<^verbatim>\<open>.\<close> and \<^verbatim>\<open>..\<close>,
  the walk of \<^verbatim>\<open>RemoveAll\<close> returns for every path and every well named state: a
  recursion one deeper than the longest path of the state is enough, and every deeper
  bound gives the same result. On the tree of ten directories with a file at the bottom,
  \<^verbatim>\<open>RemoveAll\<close> of the top directory returns \<^verbatim>\<open>nil\<close> and leaves nothing.
\<close>

theorem RemoveAll_terminates:
  "(names_ok st \<longrightarrow>
      (\<exists>r st'. \<forall>m. Suc (mem_depth st) \<le> m \<longrightarrow>
         RemoveAll m (New (noRemoveAllFS (memfs dots))) p st = Some (r, st')))
   \<and> RemoveAll 11 (New (noRemoveAllFS (memfs True))) ''/a'' deep_tree = Some (None, [])"
proof
  show "names_ok st \<longrightarrow>
      (\<exists>r st'. \<forall>m. Suc (mem_depth st) \<le> m \<longrightarrow>
         RemoveAll m (New (noRemoveAllFS (memfs dots))) p st = Some (r, st'))"
  proof
    assume ok: "names_ok st"
    have "\<forall>(k, d)\<in>set st. length k \<le> length (mem_key p) + mem_depth st"
      by (auto dest: mem_depth_bound)
    from RemoveAll_memfs_enough_depth [OF ok this] obtain r st' where
      "RemoveAll (Suc (mem_depth st)) (New (noRemoveAllFS (memfs dots))) p st = Some (r, st')"
      by blast
    then show "\<exists>r st'. \<forall>m. Suc (mem_depth st) \<le> m \<longrightarrow>
         RemoveAll m (New (noRemoveAllFS (memfs dots))) p st = Some (r, st')"
      by (blast intro: RemoveAll_more_depth)
  qed
  show "RemoveAll 11 (New (noRemoveAllFS (memfs True))) ''/a'' deep_tree = Some (None, [])"
    by code_simp
qed

theorem RemoveAll_terminates_witness:
  "\<exists>r st'. \<forall>m. Suc (mem_depth deep_tree) \<le> m \<longrightarrow>
     RemoveAll m (New (noRemoveAllFS (memfs True))) ''/a/b'' deep_tree = Some (r, st')"
proof -
  have "names_ok deep_tree" by code_simp
  with RemoveAll_terminates [of deep_tree True "''/a/b''"] show ?thesis by blast
qed

section \<open>Completeness\<close>

subsection \<open>Directory trees in memory\<close>

lemma at_or_below_ex: "at_or_below k q \<longleftrightarrow> (\<exists>r. q = k @ r)"
proof
  assume "at_or_below k q"
  then have "q = k @ drop (length k) q"
    by (metis at_or_below_def append_take_drop_id)
  then show "\<exists>r. q = k @ r" ..
next
  assume "\<exists>r. q = k @ r"
  then show "at_or_below k q" by (auto simp: at_or_below_def)
qed

lemma at_or_below_iff: "at_or_below k q \<longleftrightarrow> q = k \<or> is_below k q"
proof
  assume "at_or_below k q"
  then obtain r where "q = k @ r" using at_or_below_ex by blast
  then show "q = k \<or> is_below k q" by (cases r) (auto simp: is_below_def)
next
  assume "q = k \<or> is_below k q"
  then show "at_or_below k q" by (auto simp: at_or_below_def is_below_def)
qed

lemma at_or_below_trans: "at_or_below a b \<Longrightarrow> at_or_below b c \<Longrightarrow> at_or_below a c"
  by (auto simp: at_or_below_ex)

lemma tree_ok_entry:
  "tree_ok st \<Longrightarrow> (q, d) \<in> set st \<Longrightarrow>
   q \<noteq> [] \<and> list_all plain_name q \<and> (butlast q = [] \<or> (butlast q, True) \<in> set st)"
  by (auto simp: tree_ok_def names_ok_def list_all_iff)

lemma tree_ok_find:
  assumes "tree_ok st" and "k \<noteq> []"
  shows "mem_find st k = Some d \<longleftrightarrow> (k, d) \<in> set st"
  using assms by (simp add: mem_find_def tree_ok_def)

lemma tree_ok_find_None:
  assumes "tree_ok st" and "k \<noteq> []"
  shows "mem_find st k = None \<longleftrightarrow> (\<forall>d. (k, d) \<notin> set st)"
  using assms by (auto simp: mem_find_def tree_ok_def map_of_eq_None_iff image_iff)

lemma tree_ok_unique:
  "tree_ok st \<Longrightarrow> (k, d) \<in> set st \<Longrightarrow> (k, d') \<in> set st \<Longrightarrow> d = d'"
  by (auto simp: tree_ok_def dest: eq_key_imp_eq_value)

lemma tree_ok_ancestor:
  assumes ok: "tree_ok st" and q: "(q, d) \<in> set st"
  shows "0 < j \<Longrightarrow> j < length q \<Longrightarrow> (take j q, True) \<in> set st"
  using q
proof (induction "length q - j" arbitrary: q d j)
  case 0
  then show ?case by simp
next
  case (Suc n)
  from tree_ok_entry [OF ok Suc.prems(3)] have parent: "butlast q = [] \<or> (butlast q, True) \<in> set st"
    by simp
  show ?case
  proof (cases "Suc j = length q")
    case True
    then have "j = length q - 1" by simp
    then have "take j q = butlast q" by (simp add: butlast_conv_take)
    moreover from Suc.prems True have "butlast q \<noteq> []" by (cases q) auto
    ultimately show ?thesis using parent by simp
  next
    case False
    with Suc.prems have lt: "j < length (butlast q)" by simp
    then have "butlast q \<noteq> []" by (cases q rule: rev_cases) auto
    with parent have p: "(butlast q, True) \<in> set st" by simp
    from Suc.hyps(2) Suc.prems have "n = length (butlast q) - j" by simp
    from Suc.hyps(1) [OF this Suc.prems(1) lt p] lt show ?thesis
      by (simp add: take_butlast)
  qed
qed

lemma tree_ok_child:
  assumes ok: "tree_ok st" and q: "(q, d) \<in> set st" and below: "is_below k q"
  shows "\<exists>d'. (take (Suc (length k)) q, d') \<in> set st"
proof (cases "Suc (length k) = length q")
  case True
  with q show ?thesis by auto
next
  case False
  with below have "Suc (length k) < length q" by (simp add: is_below_def)
  from tree_ok_ancestor [OF ok q _ this] show ?thesis by auto
qed

lemma tree_ok_dir_above:
  assumes ok: "tree_ok st" and q: "(q, d) \<in> set st" and below: "is_below k q" and k: "k \<noteq> []"
  shows "(k, True) \<in> set st"
proof -
  from below have "length k < length q" "take (length k) q = k" by (simp_all add: is_below_def)
  with tree_ok_ancestor [OF ok q, of "length k"] k show ?thesis by simp
qed

lemma remove_subtree_absent:
  assumes ok: "tree_ok st" and k: "k \<noteq> []" and absent: "\<forall>d. (k, d) \<notin> set st"
  shows "remove_subtree k st = st"
proof -
  have "\<not> at_or_below k q" if "(q, d) \<in> set st" for q d
    using that absent tree_ok_dir_above [OF ok that _ k] by (auto simp: at_or_below_iff)
  then show ?thesis by (auto simp: remove_subtree_def filter_id_conv)
qed

lemma remove_subtree_file:
  assumes ok: "tree_ok st" and k: "(k, False) \<in> set st"
  shows "filter (\<lambda>(q, _). q \<noteq> k) st = remove_subtree k st"
proof -
  from tree_ok_entry [OF ok k] have ne: "k \<noteq> []" by simp
  have "q \<noteq> k \<longleftrightarrow> \<not> at_or_below k q" if "(q, d) \<in> set st" for q d
    using tree_ok_dir_above [OF ok that _ ne] tree_ok_unique [OF ok k]
    by (auto simp: at_or_below_iff)
  then show ?thesis by (auto simp: remove_subtree_def intro!: filter_cong)
qed

lemma tree_ok_remove_subtree:
  assumes ok: "tree_ok st"
  shows "tree_ok (remove_subtree c st)"
proof -
  have sub: "set (remove_subtree c st) \<subseteq> set st"
    by (auto simp: remove_subtree_def)
  have names: "names_ok (remove_subtree c st)"
    using ok sub by (auto simp: tree_ok_def intro: names_ok_subset)
  have dist: "distinct (map fst (remove_subtree c st))"
    using ok by (simp add: tree_ok_def remove_subtree_def distinct_map_filter)
  have "q \<noteq> [] \<and> (butlast q = [] \<or> (butlast q, True) \<in> set (remove_subtree c st))"
    if "(q, d) \<in> set (remove_subtree c st)" for q d
  proof -
    from that have q: "(q, d) \<in> set st" and keep: "\<not> at_or_below c q"
      by (auto simp: remove_subtree_def)
    from tree_ok_entry [OF ok q] have ne: "q \<noteq> []"
      and parent: "butlast q = [] \<or> (butlast q, True) \<in> set st" by simp_all
    have "\<not> at_or_below c (butlast q)"
    proof
      assume "at_or_below c (butlast q)"
      moreover have "at_or_below (butlast q) q"
        using ne append_butlast_last_id [of q] unfolding at_or_below_ex by metis
      ultimately have "at_or_below c q" by (rule at_or_below_trans)
      with keep show False by simp
    qed
    with parent ne show ?thesis by (auto simp: remove_subtree_def)
  qed
  with names dist show ?thesis
    by (auto simp: tree_ok_def list_all_iff)
qed


lemma IsDir_mem_info: "IsDir (mem_info k d) = d"
  by (simp add: mem_info_def)

lemma remove_subtree_subset: "set (remove_subtree c st) \<subseteq> set st"
  by (auto simp: remove_subtree_def)

lemma fold_remove_subtree:
  "fold (\<lambda>(c, d). remove_subtree c) cs t
     = filter (\<lambda>(q, d). \<not> (\<exists>(c, d')\<in>set cs. at_or_below c q)) t"
proof (induction cs arbitrary: t)
  case Nil
  then show ?case by simp
next
  case (Cons a cs)
  obtain c d where a: "a = (c, d)" by (cases a)
  have "fold (\<lambda>(c, d). remove_subtree c) (a # cs) t
      = fold (\<lambda>(c, d). remove_subtree c) cs (remove_subtree c t)"
    by (simp add: a)
  also have "\<dots> = filter (\<lambda>(q, d). \<not> (\<exists>(c, d')\<in>set cs. at_or_below c q)) (remove_subtree c t)"
    by (rule Cons.IH)
  also have "\<dots> = filter (\<lambda>(q, d). \<not> (\<exists>(c, d')\<in>set (a # cs). at_or_below c q)) t"
    unfolding remove_subtree_def filter_filter by (rule filter_cong) (auto simp: a)
  finally show ?case .
qed

lemma RemoveAll_children_dots:
  "RemoveAll_children recurse p
     ((if dots then [\<lparr>Name = ''.'', IsDir = True\<rparr>, \<lparr>Name = ''..'', IsDir = True\<rparr>] else []) @ infos) t
     = RemoveAll_children recurse p infos t"
  by simp

lemma RemoveAll_children_subtrees:
  assumes rec: "\<forall>(c, d)\<in>set cs. c \<noteq> [] \<and> plain_name (last c) \<and>
      (\<forall>t. Inv t \<longrightarrow>
         recurse (path_Join [p, last c]) t = Some (None, remove_subtree c t)
         \<and> Inv (remove_subtree c t))"
    and inv: "Inv t"
  shows "RemoveAll_children recurse p (map (\<lambda>(c, d). mem_info c d) cs) t
           = Some (None, fold (\<lambda>(c, d). remove_subtree c) cs t)"
  using assms
proof (induction cs arbitrary: t)
  case Nil
  then show ?case by simp
next
  case (Cons a cs)
  obtain c d where a: "a = (c, d)" by (cases a)
  from Cons.prems(1) a have c: "c \<noteq> []" "plain_name (last c)"
    and run: "recurse (path_Join [p, last c]) t = Some (None, remove_subtree c t)"
    and inv': "Inv (remove_subtree c t)"
    using Cons.prems(2) by auto
  from c have name: "Name (mem_info c d) = last c" "last c \<noteq> ''.''" "last c \<noteq> ''..''"
    by (auto simp: mem_info_def plain_name_def)
  from Cons.prems(1) have rest: "\<forall>(c, d)\<in>set cs. c \<noteq> [] \<and> plain_name (last c) \<and>
      (\<forall>t. Inv t \<longrightarrow>
         recurse (path_Join [p, last c]) t = Some (None, remove_subtree c t)
         \<and> Inv (remove_subtree c t))"
    by simp
  from Cons.IH [OF rest inv'] name run show ?case
    by (simp add: a Let_def)
qed

lemma tree_ok_below_child:
  assumes ok: "tree_ok st" and q: "(q, d) \<in> set st"
  shows "is_below k q \<longleftrightarrow>
    (\<exists>(c, d')\<in>set (filter (\<lambda>(c, d). c \<noteq> [] \<and> butlast c = k) st). at_or_below c q)"
proof
  assume below: "is_below k q"
  then have len: "length k < length q" and pre: "take (length k) q = k"
    by (simp_all add: is_below_def)
  let ?c = "take (Suc (length k)) q"
  from tree_ok_child [OF ok q below] obtain d' where c: "(?c, d') \<in> set st" by blast
  from len have "?c \<noteq> []" by (cases q) auto
  moreover from len pre have "butlast ?c = k"
    by (simp add: butlast_take)
  moreover from len have "at_or_below ?c q"
    by (simp add: at_or_below_def min_def)
  ultimately show "\<exists>(c, d')\<in>set (filter (\<lambda>(c, d). c \<noteq> [] \<and> butlast c = k) st). at_or_below c q"
    using c by auto
next
  assume "\<exists>(c, d')\<in>set (filter (\<lambda>(c, d). c \<noteq> [] \<and> butlast c = k) st). at_or_below c q"
  then obtain c r where c: "c \<noteq> []" "butlast c = k" "q = c @ r"
    by (auto simp: at_or_below_ex)
  from c(1,2) have "c = k @ [last c]" by (metis append_butlast_last_id)
  with c(3) have "q = k @ (last c # r)" by simp
  then show "is_below k q" by (simp add: is_below_def)
qed

lemma RemoveAll_memfs_level_result:
  assumes ok: "tree_ok st" and k: "mem_key p \<noteq> []" and inv: "Inv st"
    and children: "\<forall>(c, d)\<in>set st. c \<noteq> [] \<and> butlast c = mem_key p \<longrightarrow>
      (\<forall>t. Inv t \<longrightarrow>
         RemoveAll n (New (noRemoveAllFS (memfs dots))) (path_Join [p, last c]) t
           = Some (None, remove_subtree c t)
         \<and> Inv (remove_subtree c t))"
  shows "RemoveAll (Suc n) (New (noRemoveAllFS (memfs dots))) p st
           = Some (None, remove_subtree (mem_key p) st)"
proof -
  let ?F = "New (noRemoveAllFS (memfs dots))"
  let ?k = "mem_key p"
  show ?thesis
  proof (cases "mem_find st ?k")
    case None
    with tree_ok_find_None [OF ok k] have "\<forall>d. (?k, d) \<notin> set st" by simp
    from remove_subtree_absent [OF ok k this] None show ?thesis
      by (simp add: Stat_def mem_Stat_def)
  next
    case (Some d)
    with tree_ok_find [OF ok k, of d] have kd: "(?k, d) \<in> set st" by simp
    show ?thesis
    proof (cases d)
      case False
      with kd have "filter (\<lambda>(q, _). q \<noteq> ?k) st = remove_subtree ?k st"
        using remove_subtree_file [OF ok] by simp
      with Some False k show ?thesis
        by (simp add: Stat_def Remove_def mem_Stat_def mem_Remove_def IsDir_mem_info)
    next
      case True
      let ?cs = "filter (\<lambda>(c, d). c \<noteq> [] \<and> butlast c = ?k) st"
      let ?t5 = "fold (\<lambda>(c, d). remove_subtree c) ?cs st"
      have rec: "\<forall>(c, d)\<in>set ?cs. c \<noteq> [] \<and> plain_name (last c) \<and>
          (\<forall>t. Inv t \<longrightarrow>
             RemoveAll n ?F (path_Join [p, last c]) t = Some (None, remove_subtree c t)
             \<and> Inv (remove_subtree c t))"
      proof (clarify)
        fix c d'
        assume c: "(c, d') \<in> set ?cs"
        then have cst: "(c, d') \<in> set st" and ne: "c \<noteq> []" and par: "butlast c = ?k" by auto
        from tree_ok_entry [OF ok cst] ne have "plain_name (last c)"
          by (simp add: list_all_iff)
        with children cst ne par show "c \<noteq> [] \<and> plain_name (last c) \<and>
          (\<forall>t. Inv t \<longrightarrow>
             RemoveAll n ?F (path_Join [p, last c]) t = Some (None, remove_subtree c t)
             \<and> Inv (remove_subtree c t))"
          by auto
      qed
      have loop: "RemoveAll_children (RemoveAll n ?F) p (map (\<lambda>(c, d). mem_info c d) ?cs) st
          = Some (None, ?t5)"
        by (rule RemoveAll_children_subtrees [where Inv = Inv, OF rec inv])
      have t5: "?t5 = filter (\<lambda>(q, d). \<not> is_below ?k q) st"
        unfolding fold_remove_subtree
      proof (rule filter_cong [OF refl])
        fix x
        assume x: "x \<in> set st"
        obtain q d where xeq: "x = (q, d)" by (cases x)
        with x have "(q, d) \<in> set st" by simp
        from tree_ok_below_child [OF ok this, of ?k]
        have "(\<not> (\<exists>(c, d')\<in>set ?cs. at_or_below c q)) = (\<not> is_below ?k q)"
          by (rule arg_cong [where f = Not, symmetric])
        then show "(case x of (q, d) \<Rightarrow> \<not> (\<exists>(c, d')\<in>set ?cs. at_or_below c q))
            = (case x of (q, d) \<Rightarrow> \<not> is_below ?k q)"
          unfolding xeq prod.case .
      qed
      have dist: "distinct (map fst ?t5)"
        using ok unfolding t5 by (simp add: tree_ok_def distinct_map_filter)
      from kd True have "(?k, True) \<in> set ?t5"
        unfolding t5 by (simp add: is_below_def)
      with dist k have find5: "mem_find ?t5 ?k = Some True"
        by (simp add: mem_find_def)
      have none5: "\<not> list_ex (\<lambda>(q, _). is_below ?k q) ?t5"
        unfolding t5 by (auto simp: list_ex_iff)
      have "filter (\<lambda>(q, _). q \<noteq> ?k) ?t5 = remove_subtree ?k st"
        unfolding t5 remove_subtree_def
        by (simp add: at_or_below_iff) (rule filter_cong, auto)
      with find5 none5 k have fin: "RemoveAll_final ?F p ?t5 = (None, remove_subtree ?k st)"
        by (simp add: RemoveAll_final_def Remove_def mem_Remove_def)
      from Some True loop fin show ?thesis
        by (simp add: Stat_def OpenFile_def mem_Stat_def mem_OpenFile_def mem_Readdir_def
            mem_Close_def IsDir_mem_info RemoveAll_children_dots del: RemoveAll_children.simps)
    qed
  qed
qed


lemma RemoveAll_memfs_subtree:
  "tree_ok st \<Longrightarrow> mem_key p \<noteq> [] \<Longrightarrow> \<forall>(q, d)\<in>set st. length q \<le> length (mem_key p) + n \<Longrightarrow>
   RemoveAll (Suc n) (New (noRemoveAllFS (memfs dots))) p st
     = Some (None, remove_subtree (mem_key p) st)"
proof (induction n arbitrary: p st)
  case 0
  have "False" if c: "(c, d) \<in> set st" "c \<noteq> []" "butlast c = mem_key p" for c d
  proof -
    from c have "length c = Suc (length (mem_key p))"
      by (metis append_butlast_last_id length_append_singleton)
    with 0(3) c(1) show False by auto
  qed
  then have "\<forall>(c, d)\<in>set st. c \<noteq> [] \<and> butlast c = mem_key p \<longrightarrow>
      (\<forall>t. True \<longrightarrow>
         RemoveAll 0 (New (noRemoveAllFS (memfs dots))) (path_Join [p, last c]) t
           = Some (None, remove_subtree c t)
         \<and> True)"
    by blast
  from RemoveAll_memfs_level_result [where Inv = "\<lambda>t. True", OF 0(1,2) _ this] show ?case
    by simp
next
  case (Suc n)
  let ?F = "New (noRemoveAllFS (memfs dots))"
  let ?Inv = "\<lambda>t. tree_ok t \<and> (\<forall>(q, d)\<in>set t. length q \<le> length (mem_key p) + Suc n)"
  have "RemoveAll (Suc n) ?F (path_Join [p, last c]) t = Some (None, remove_subtree c t)
        \<and> ?Inv (remove_subtree c t)"
    if c: "(c, d) \<in> set st" "c \<noteq> []" "butlast c = mem_key p"
      and t: "tree_ok t" "\<forall>(q, d)\<in>set t. length q \<le> length (mem_key p) + Suc n"
    for c d t
  proof -
    from tree_ok_entry [OF Suc.prems(1) c(1)] c(2) have "plain_name (last c)"
      by (simp add: list_all_iff)
    then have "mem_key (path_Join [p, last c]) = mem_key p @ [last c]"
      by (rule mem_key_Join)
    with c(2,3) have key: "mem_key (path_Join [p, last c]) = c"
      by (metis append_butlast_last_id)
    from c(2,3) have "length c = Suc (length (mem_key p))"
      by (metis append_butlast_last_id length_append_singleton)
    with t(2) key have bound: "\<forall>(q, d)\<in>set t. length q \<le> length (mem_key (path_Join [p, last c])) + n"
      by simp
    from key c(2) have ne: "mem_key (path_Join [p, last c]) \<noteq> []" by simp
    from Suc.IH [OF t(1) ne bound] key
    have run: "RemoveAll (Suc n) ?F (path_Join [p, last c]) t = Some (None, remove_subtree c t)"
      by simp
    from t(2) remove_subtree_subset [of c t]
    have "\<forall>(q, d)\<in>set (remove_subtree c t). length q \<le> length (mem_key p) + Suc n"
      by blast
    with run tree_ok_remove_subtree [OF t(1), of c] show ?thesis
      by simp
  qed
  then have "\<forall>(c, d)\<in>set st. c \<noteq> [] \<and> butlast c = mem_key p \<longrightarrow>
      (\<forall>t. ?Inv t \<longrightarrow>
         RemoveAll (Suc n) ?F (path_Join [p, last c]) t = Some (None, remove_subtree c t)
         \<and> ?Inv (remove_subtree c t))"
    by blast
  from RemoveAll_memfs_level_result [where Inv = ?Inv, OF Suc.prems(1,2) _ this] Suc.prems
  show ?case by simp
qed

lemma RemoveAll_memfs_removes:
  assumes ok: "tree_ok st" and k: "mem_key p \<noteq> []" and m: "Suc (mem_depth st) \<le> m"
  shows "RemoveAll m (New (noRemoveAllFS (memfs dots))) p st
           = Some (None, remove_subtree (mem_key p) st)"
proof -
  have "\<forall>(q, d)\<in>set st. length q \<le> length (mem_key p) + mem_depth st"
    using mem_depth_bound by fastforce
  from RemoveAll_more_depth [OF RemoveAll_memfs_subtree [OF ok k this] m] show ?thesis .
qed

lemma RemoveAll_memfs_root:
  assumes root: "mem_key p = []"
  shows "RemoveAll depth (New (noRemoveAllFS (memfs dots))) p st \<noteq> Some (None, st')"
proof (cases depth)
  case 0
  then show ?thesis by simp
next
  case (Suc n)
  let ?F = "New (noRemoveAllFS (memfs dots))"
  have fin: "fst (RemoveAll_final ?F p t) \<noteq> None" for t
    using root
    by (simp add: RemoveAll_final_def Remove_def Stat_def mem_Remove_def mem_Stat_def
        mem_find_def err_of_def)
  show ?thesis
  proof (cases "fst (mem_Readdir dots [] 0 st)")
    case (Inl e)
    then show ?thesis by (simp add: mem_Readdir_def mem_find_def)
  next
    case (Inr infos)
    then have ls: "mem_Readdir dots [] 0 st = (Inr infos, st)"
      by (simp add: mem_Readdir_def mem_find_def)
    show ?thesis
    proof (cases "RemoveAll_children (RemoveAll n ?F) p infos st")
      case None
      with Suc root ls show ?thesis
        by (simp add: Stat_def OpenFile_def mem_Stat_def mem_OpenFile_def mem_find_def
            mem_Close_def IsDir_mem_info)
    next
      case (Some x)
      obtain r5 t5 where x: "x = (r5, t5)" by (cases x)
      show ?thesis
      proof (cases r5)
        case None
        with Suc root ls Some x fin [of t5] show ?thesis
          by (cases "RemoveAll_final ?F p t5")
             (simp add: Stat_def OpenFile_def mem_Stat_def mem_OpenFile_def mem_find_def
                mem_Close_def IsDir_mem_info)
      next
        case (Some e)
        with Suc root ls \<open>RemoveAll_children (RemoveAll n ?F) p infos st = Some x\<close> x show ?thesis
          by (simp add: Stat_def OpenFile_def mem_Stat_def mem_OpenFile_def mem_find_def
              mem_Close_def IsDir_mem_info)
      qed
    qed
  qed
qed

lemma RemoveAll_memfs_success:
  assumes ok: "tree_ok st"
    and run: "RemoveAll depth (New (noRemoveAllFS (memfs dots))) p st = Some (None, st')"
  shows "mem_key p \<noteq> [] \<and> st' = remove_subtree (mem_key p) st"
proof -
  from run RemoveAll_memfs_root [of p depth dots st st'] have k: "mem_key p \<noteq> []" by blast
  let ?m = "max depth (Suc (mem_depth st))"
  from RemoveAll_more_depth [OF run, of ?m]
  have "RemoveAll ?m (New (noRemoveAllFS (memfs dots))) p st = Some (None, st')" by simp
  moreover from RemoveAll_memfs_removes [OF ok k, of ?m dots]
  have "RemoveAll ?m (New (noRemoveAllFS (memfs dots))) p st
      = Some (None, remove_subtree (mem_key p) st)" by simp
  ultimately show ?thesis using k by simp
qed

lemma RemoveAll_native_memfs_success:
  assumes ok: "tree_ok st"
    and run: "RemoveAll depth (New (memfs dots)) p st = Some (None, st')"
  shows "mem_key p \<noteq> [] \<and> st' = remove_subtree (mem_key p) st"
proof (cases depth)
  case 0
  with run show ?thesis by simp
next
  case (Suc n)
  have same: "filter (\<lambda>(q, _). q \<noteq> k \<and> \<not> is_below k q) st = remove_subtree k st" for k
    unfolding remove_subtree_def by (rule filter_cong) (auto simp: at_or_below_iff)
  show ?thesis
  proof (cases "mem_key p = []")
    case True
    with run Suc show ?thesis
      by (simp add: memfs_def mem_RemoveAll_def mem_find_def)
  next
    case False
    show ?thesis
    proof (cases "mem_find st (mem_key p)")
      case None
      with tree_ok_find_None [OF ok False] have "\<forall>d. (mem_key p, d) \<notin> set st" by simp
      from remove_subtree_absent [OF ok False this] None run Suc False show ?thesis
        by (simp add: memfs_def mem_RemoveAll_def)
    next
      case (Some d)
      with run Suc False same [of "mem_key p"] show ?thesis
        by (simp add: memfs_def mem_RemoveAll_def)
    qed
  qed
qed

lemma RemoveAll_native_memfs_removes:
  assumes ok: "tree_ok st" and k: "mem_key p \<noteq> []"
  shows "RemoveAll (Suc n) (New (memfs dots)) p st = Some (None, remove_subtree (mem_key p) st)"
proof -
  have same: "filter (\<lambda>(q, _). q \<noteq> k \<and> \<not> is_below k q) st = remove_subtree k st" for k
    unfolding remove_subtree_def by (rule filter_cong) (auto simp: at_or_below_iff)
  show ?thesis
  proof (cases "mem_find st (mem_key p)")
    case None
    with tree_ok_find_None [OF ok k] have "\<forall>d. (mem_key p, d) \<notin> set st" by simp
    from remove_subtree_absent [OF ok k this] None show ?thesis
      by (simp add: memfs_def mem_RemoveAll_def)
  next
    case (Some d)
    with k same [of "mem_key p"] show ?thesis
      by (simp add: memfs_def mem_RemoveAll_def)
  qed
qed

lemma mem_Stat_remove_subtree:
  "k \<noteq> [] \<Longrightarrow> mem_key p = k \<Longrightarrow>
   os_IsNotExist (err_of (fst (mem_Stat p (remove_subtree k st))))"
proof -
  assume k: "k \<noteq> []" "mem_key p = k"
  have "k \<notin> fst ` set (remove_subtree k st)"
    by (auto simp: remove_subtree_def at_or_below_def)
  then have "map_of (remove_subtree k st) k = None"
    by (simp add: map_of_eq_None_iff)
  with k show ?thesis
    by (simp add: mem_Stat_def mem_find_def err_of_def)
qed

text \<open>
  The states that \<^verbatim>\<open>Mkdir\<close> builds from the empty one are directory trees.
\<close>

lemma tree_ok_Nil: "tree_ok []"
  by (simp add: tree_ok_def names_ok_def)

lemma tree_ok_Mkdir:
  assumes ok: "tree_ok st"
  shows "tree_ok (snd (mem_Mkdir name perm st))"
proof (cases "fst (mem_Mkdir name perm st) = None")
  case False
  then have "snd (mem_Mkdir name perm st) = st"
    by (auto simp: mem_Mkdir_def Let_def split: option.splits if_splits)
  with ok show ?thesis by simp
next
  case True
  let ?k = "mem_key name"
  from True have new: "mem_find st ?k = None" and parent: "mem_find st (butlast ?k) = Some True"
    and st': "snd (mem_Mkdir name perm st) = st @ [(?k, True)]"
    by (auto simp: mem_Mkdir_def Let_def split: option.splits if_splits)
  from new have ne: "?k \<noteq> []" by (auto simp: mem_find_def split: if_splits)
  with new tree_ok_find_None [OF ok ne] have fresh: "?k \<notin> fst ` set st" by force
  from parent ok have up: "butlast ?k = [] \<or> (butlast ?k, True) \<in> set st"
    by (auto simp: mem_find_def tree_ok_def split: if_splits)
  from ok ne fresh up mem_key_plain [of name] show ?thesis
    unfolding st' by (auto simp: tree_ok_def names_ok_def list_all_iff)
qed

subsection \<open>The claim\<close>

text \<open>
  Claim C1, amended. The claim holds on a backing filesystem that keeps a directory
  tree: on the filesystem in memory, with or without \<^verbatim>\<open>.\<close> and \<^verbatim>\<open>..\<close> in its listings, by
  the walk of \<^verbatim>\<open>RemoveAll\<close> and by its native \<^verbatim>\<open>RemoveAll\<close>, in every state \<open>st\<close> that is a
  directory tree. There, when \<^verbatim>\<open>RemoveAll(p)\<close> returns \<^verbatim>\<open>nil\<close>, a \<^verbatim>\<open>Stat(p)\<close> in the state it
  leaves fails with a not-exist error, and that state is \<open>st\<close> without the entry \<open>p\<close> and
  without the entries below \<open>p\<close>: no entry at or below \<open>p\<close> is left, every other entry is
  kept. And for every \<open>p\<close> but the root \<^verbatim>\<open>RemoveAll(p)\<close> does return \<^verbatim>\<open>nil\<close>: the walk with a
  recursion one deeper than the longest path of \<open>st\<close>, the native call at once.
\<close>

theorem RemoveAll_completeness:
  assumes ok: "tree_ok st"
  shows "(RemoveAll depth (New (noRemoveAllFS (memfs dots))) p st = Some (None, st') \<longrightarrow>
            os_IsNotExist (err_of (fst (Stat (New (noRemoveAllFS (memfs dots))) p st')))
            \<and> st' = remove_subtree (mem_key p) st
            \<and> list_all (\<lambda>(q, d). \<not> at_or_below (mem_key p) q) st')
       \<and> (RemoveAll depth (New (memfs dots)) p st = Some (None, st'') \<longrightarrow>
            os_IsNotExist (err_of (fst (Stat (New (memfs dots)) p st'')))
            \<and> st'' = remove_subtree (mem_key p) st
            \<and> list_all (\<lambda>(q, d). \<not> at_or_below (mem_key p) q) st'')
       \<and> (mem_key p \<noteq> [] \<longrightarrow>
            RemoveAll (Suc (mem_depth st)) (New (noRemoveAllFS (memfs dots))) p st
              = Some (None, remove_subtree (mem_key p) st)
            \<and> RemoveAll (Suc 0) (New (memfs dots)) p st
              = Some (None, remove_subtree (mem_key p) st))"
proof -
  have gone: "list_all (\<lambda>(q, d). \<not> at_or_below (mem_key p) q) (remove_subtree (mem_key p) st)"
    by (auto simp: remove_subtree_def list_all_iff)
  have walk: "os_IsNotExist (err_of (fst (Stat (New (noRemoveAllFS (memfs dots))) p st')))
      \<and> st' = remove_subtree (mem_key p) st
      \<and> list_all (\<lambda>(q, d). \<not> at_or_below (mem_key p) q) st'"
    if run: "RemoveAll depth (New (noRemoveAllFS (memfs dots))) p st = Some (None, st')"
  proof -
    from RemoveAll_memfs_success [OF ok run]
    have k: "mem_key p \<noteq> []" and st': "st' = remove_subtree (mem_key p) st" by simp_all
    from mem_Stat_remove_subtree [OF k refl, of st] gone st' show ?thesis
      by (simp add: Stat_def)
  qed
  have native: "os_IsNotExist (err_of (fst (Stat (New (memfs dots)) p st'')))
      \<and> st'' = remove_subtree (mem_key p) st
      \<and> list_all (\<lambda>(q, d). \<not> at_or_below (mem_key p) q) st''"
    if run: "RemoveAll depth (New (memfs dots)) p st = Some (None, st'')"
  proof -
    from RemoveAll_native_memfs_success [OF ok run]
    have k: "mem_key p \<noteq> []" and st'': "st'' = remove_subtree (mem_key p) st" by simp_all
    from mem_Stat_remove_subtree [OF k refl, of st] gone st'' show ?thesis
      by (simp add: Stat_def memfs_def)
  qed
  have returns: "RemoveAll (Suc (mem_depth st)) (New (noRemoveAllFS (memfs dots))) p st
        = Some (None, remove_subtree (mem_key p) st)
      \<and> RemoveAll (Suc 0) (New (memfs dots)) p st = Some (None, remove_subtree (mem_key p) st)"
    if k: "mem_key p \<noteq> []"
    using RemoveAll_memfs_removes [OF ok k, of "Suc (mem_depth st)" dots]
      RemoveAll_native_memfs_removes [OF ok k, of 0 dots]
    by simp
  from walk native returns show ?thesis by blast
qed

theorem RemoveAll_completeness_witness:
  "tree_ok [([''a''], True), ([''a'', ''b''], True), ([''x''], False), ([''a'', ''b'', ''file.txt''], False)]
   \<and> mem_key ''/a'' \<noteq> []
   \<and> RemoveAll (Suc (Suc (Suc 0))) (New (noRemoveAllFS (memfs True))) ''/a''
        [([''a''], True), ([''a'', ''b''], True), ([''x''], False), ([''a'', ''b'', ''file.txt''], False)]
      = Some (None, [([''x''], False)])
   \<and> RemoveAll (Suc (Suc (Suc 0))) (New (memfs True)) ''/a''
        [([''a''], True), ([''a'', ''b''], True), ([''x''], False), ([''a'', ''b'', ''file.txt''], False)]
      = Some (None, [([''x''], False)])
   \<and> os_IsNotExist (err_of (fst (Stat (New (noRemoveAllFS (memfs True))) ''/a'' [([''x''], False)])))
   \<and> os_IsNotExist (err_of (fst (Stat (New (memfs True)) ''/a'' [([''x''], False)])))
   \<and> [([''x''], False)] = remove_subtree (mem_key ''/a'')
        [([''a''], True), ([''a'', ''b''], True), ([''x''], False), ([''a'', ''b'', ''file.txt''], False)]
   \<and> list_all (\<lambda>(q, d). \<not> at_or_below (mem_key ''/a'') q) [([''x''], False)]"
proof -
  let ?st = "[([''a''], True), ([''a'', ''b''], True), ([''x''], False), ([''a'', ''b'', ''file.txt''], False)]"
  have ok: "tree_ok ?st"
    by code_simp
  have k: "mem_key ''/a'' \<noteq> []"
    by code_simp
  have run: "RemoveAll (Suc (Suc (Suc 0))) (New (noRemoveAllFS (memfs True))) ''/a'' ?st
      = Some (None, [([''x''], False)])"
    by code_simp
  have run': "RemoveAll (Suc (Suc (Suc 0))) (New (memfs True)) ''/a'' ?st = Some (None, [([''x''], False)])"
    by code_simp
  from RemoveAll_completeness [OF ok, of "Suc (Suc (Suc 0))" True "''/a''" "[([''x''], False)]"
      "[([''x''], False)]"] ok k run run'
  show ?thesis by blast
qed

text \<open>
  Claim C1 as it is written fails on the run of \<^verbatim>\<open>TestRemoveAllOpenFileNotExistError\<close>:
  \<^verbatim>\<open>Stat\<close> finds the directory, \<^verbatim>\<open>OpenFile\<close> answers with a not-exist error, and
  \<^verbatim>\<open>RemoveAll\<close> returns \<^verbatim>\<open>nil\<close> (line 103) with the directory still there.
\<close>

theorem RemoveAll_success_but_present_counterexample:
  "RemoveAll (Suc 0)
     (New (errorFS (noRemoveAllFS (memfs False)) None (Some (ErrNotExist ''file does not exist'')) None))
     ''/testdir'' [([''testdir''], True)] = Some (None, [([''testdir''], True)])
   \<and> Stat (New (errorFS (noRemoveAllFS (memfs False)) None (Some (ErrNotExist ''file does not exist'')) None))
        ''/testdir'' [([''testdir''], True)] =
      (Inr \<lparr>Name = ''testdir'', IsDir = True\<rparr>, [([''testdir''], True)])"
  by code_simp

section \<open>\<^verbatim>\<open>MkdirAll\<close>\<close>

text \<open>The paths of \<open>slash_prefixes\<close> are prefixes of the name, as they are written.\<close>

lemma prefixes_from_take:
  "q \<in> set (prefixes_from pre s) \<Longrightarrow> \<exists>n. 0 < n \<and> n \<le> length s \<and> q = pre @ take n s"
proof (induction s arbitrary: pre)
  case Nil
  then show ?case by simp
next
  case (Cons c cs)
  from Cons.prems consider "q = pre @ [c]" | "q \<in> set (prefixes_from (pre @ [c]) cs)"
    by (auto split: if_splits)
  then show ?case
  proof cases
    case 1
    then show ?thesis by (intro exI [of _ "Suc 0"]) simp
  next
    case 2
    from Cons.IH [OF 2] obtain n where "0 < n" "n \<le> length cs" "q = (pre @ [c]) @ take n cs"
      by blast
    then show ?thesis by (intro exI [of _ "Suc n"]) simp
  qed
qed

lemma slash_prefixes_take:
  "q \<in> set (slash_prefixes name) \<Longrightarrow> \<exists>n. 0 < n \<and> n \<le> length name \<and> q = take n name"
  using prefixes_from_take [of q "[]" name] by (simp add: slash_prefixes_def)

lemma strings_Join_Cons:
  "ys \<noteq> [] \<Longrightarrow> strings_Join (x # ys) sep = x @ sep @ strings_Join ys sep"
  by (cases ys) simp_all

lemma prefixes_of_parts_Cons:
  "prefixes_of_parts (x # seen) es = map (\<lambda>q. x @ ''/'' @ q) (prefixes_of_parts seen es)"
  by (induction es arbitrary: seen) (simp_all add: strings_Join_Cons)

lemma hd_strings_Split_Nil:
  "hd (strings_Split cs sep) = [] \<longleftrightarrow> cs = [] \<or> hd cs = sep"
  by (cases cs) (auto split: list.splits)

lemma prefixes_from_parts:
  "prefixes_from pre s = map (\<lambda>q. pre @ q) (prefixes_of_parts [] (strings_Split s CHR ''/''))"
proof (induction s arbitrary: pre)
  case Nil
  then show ?case by simp
next
  case (Cons c cs)
  obtain w ws where split: "strings_Split cs CHR ''/'' = w # ws"
    by (cases "strings_Split cs CHR ''/''") simp_all
  have w: "w = [] \<longleftrightarrow> cs = [] \<or> hd cs = CHR ''/''"
    using hd_strings_Split_Nil [of cs "CHR ''/''"] split by simp
  show ?case
  proof (cases "c = CHR ''/''")
    case True
    with Cons.IH [of "pre @ [c]"] show ?thesis
      by (simp add: prefixes_of_parts_Cons comp_def)
  next
    case False
    with Cons.IH [of "pre @ [c]"] split w show ?thesis
      by (auto simp: prefixes_of_parts_Cons comp_def)
  qed
qed

lemma slash_prefixes_parts:
  "slash_prefixes name = prefixes_of_parts [] (strings_Split name CHR ''/'')"
  by (simp add: slash_prefixes_def prefixes_from_parts)

lemma path_Join_root:
  "q \<noteq> [] \<Longrightarrow> path_Join [''/'', q] = rooted_path (clean_elems True (strings_Split q CHR ''/''))"
  by (simp add: path_Join_def path_Clean_def is_rooted_def rooted_path_def clean_elems_Nil_Cons Let_def)

lemma clean_elems_clean_snoc:
  assumes "\<forall>x\<in>set seen. CHR ''/'' \<notin> set x"
  shows "clean_elems True (clean_elems True seen @ [e]) = clean_elems True (seen @ [e])"
proof -
  have plain: "list_all plain_name (clean_elems True seen)"
    by (rule clean_elems_True_plain [OF assms])
  have "clean_elems True (clean_elems True seen @ [e])
      = rev (foldl (clean_step True) (rev (clean_elems True (clean_elems True seen))) [e])"
    by (rule clean_elems_append)
  also have "clean_elems True (clean_elems True seen) = clean_elems True seen"
    by (rule clean_elems_plain [OF plain])
  also have "rev (foldl (clean_step True) (rev (clean_elems True seen)) [e]) = clean_elems True (seen @ [e])"
    by (rule clean_elems_append [symmetric])
  finally show ?thesis .
qed

lemma MkdirAll_loop_prefixes:
  assumes "\<forall>x\<in>set seen. CHR ''/'' \<notin> set x" and "\<forall>x\<in>set es. CHR ''/'' \<notin> set x"
  shows "MkdirAll_loop filer perm (rooted_path (clean_elems True seen)) es s =
         Mkdir_each filer perm (map (\<lambda>q. path_Join [''/'', q]) (prefixes_of_parts seen es)) s"
  using assms
proof (induction es arbitrary: seen s)
  case Nil
  then show ?case by simp
next
  case (Cons e es)
  from Cons.prems have sf: "\<forall>x\<in>set (seen @ [e]). CHR ''/'' \<notin> set x" and rest: "\<forall>x\<in>set es. CHR ''/'' \<notin> set x"
    by auto
  note IH = Cons.IH [OF sf rest]
  show ?case
  proof (cases "e = []")
    case True
    then have "clean_elems True (seen @ [e]) = clean_elems True seen"
      by (simp add: clean_elems_def)
    with True IH show ?thesis by simp
  next
    case False
    let ?q = "strings_Join (seen @ [e]) ''/''"
    from False have q: "?q \<noteq> []"
      by (simp add: strings_Join_snoc)
    have plain: "list_all plain_name (clean_elems True seen)"
      by (rule clean_elems_True_plain) (use Cons.prems in auto)
    from Cons.prems False
    have "path_Join [rooted_path (clean_elems True seen), e]
        = rooted_path (clean_elems True (clean_elems True seen @ [e]))"
      by (intro path_Join_rooted_path [OF plain]) auto
    also have "\<dots> = rooted_path (clean_elems True (seen @ [e]))"
      using Cons.prems by (simp add: clean_elems_clean_snoc)
    finally have loop_path:
      "path_Join [rooted_path (clean_elems True seen), e] = rooted_path (clean_elems True (seen @ [e]))" .
    have "path_Join [''/'', ?q] = rooted_path (clean_elems True (strings_Split ?q CHR ''/''))"
      by (rule path_Join_root [OF q])
    also have "\<dots> = rooted_path (clean_elems True (seen @ [e]))"
      using clean_elems_Split_Join [OF sf] by simp
    finally have spec_path: "path_Join [''/'', ?q] = rooted_path (clean_elems True (seen @ [e]))" .
    from False loop_path spec_path IH show ?thesis
      by (simp add: Let_def split: prod.splits)
  qed
qed

lemma MkdirAll_Mkdir_each:
  "MkdirAll filer name perm s =
   Mkdir_each filer perm (map (\<lambda>q. path_Join [''/'', q]) (slash_prefixes name)) s"
proof -
  have sf: "\<forall>x\<in>set (strings_Split name CHR ''/''). CHR ''/'' \<notin> set x"
    by (auto dest: set_strings_Split)
  have "MkdirAll filer name perm s =
      MkdirAll_loop filer perm (rooted_path (clean_elems True [])) (strings_Split name CHR ''/'') s"
    by (simp add: MkdirAll_def rooted_path_def clean_elems_def)
  also have "\<dots> = Mkdir_each filer perm
      (map (\<lambda>q. path_Join [''/'', q]) (prefixes_of_parts [] (strings_Split name CHR ''/''))) s"
    by (rule MkdirAll_loop_prefixes [OF _ sf]) simp
  finally show ?thesis by (simp add: slash_prefixes_parts)
qed

lemma prefixes_of_parts_elems:
  "q \<in> set (prefixes_of_parts seen es) \<Longrightarrow>
   \<exists>j. 0 < j \<and> j \<le> length es \<and> q = strings_Join (seen @ take j es) ''/''"
proof (induction es arbitrary: seen)
  case Nil
  then show ?case by simp
next
  case (Cons e es)
  from Cons.prems consider "q = strings_Join (seen @ [e]) ''/''"
    | "q \<in> set (prefixes_of_parts (seen @ [e]) es)"
    by (auto split: if_splits)
  then show ?case
  proof cases
    case 1
    then show ?thesis by (intro exI [of _ "Suc 0"]) simp
  next
    case 2
    from Cons.IH [OF 2] obtain j where "0 < j" "j \<le> length es"
      "q = strings_Join ((seen @ [e]) @ take j es) ''/''"
      by blast
    then show ?thesis by (intro exI [of _ "Suc j"]) simp
  qed
qed

lemma path_Join_root_plain:
  assumes "list_all plain_name xs" and "xs \<noteq> []"
  shows "path_Join [''/'', rooted_path xs] = rooted_path xs"
proof -
  from assms have sf: "\<forall>x\<in>set xs. CHR ''/'' \<notin> set x"
    by (auto simp: list_all_iff plain_name_def)
  have "path_Join [''/'', rooted_path xs]
      = rooted_path (clean_elems True (strings_Split (rooted_path xs) CHR ''/''))"
    by (rule path_Join_root) (simp add: rooted_path_def)
  also have "strings_Split (rooted_path xs) CHR ''/'' = [] # xs"
    using assms sf by (simp add: rooted_path_def strings_Split_Join)
  also have "clean_elems True ([] # xs) = xs"
    using assms by (simp add: clean_elems_Nil_Cons clean_elems_plain)
  finally show ?thesis .
qed

lemma slash_prefixes_rooted_path:
  assumes "list_all plain_name es" and "q \<in> set (slash_prefixes (rooted_path es))"
  shows "\<exists>xs. list_all plain_name xs \<and> xs \<noteq> [] \<and> q = rooted_path xs"
proof (cases "es = []")
  case True
  with assms(2) show ?thesis
    by (simp add: slash_prefixes_def rooted_path_def)
next
  case False
  from assms(1) have sf: "\<forall>x\<in>set es. CHR ''/'' \<notin> set x"
    by (auto simp: list_all_iff plain_name_def)
  with False have "strings_Split (rooted_path es) CHR ''/'' = [] # es"
    by (simp add: rooted_path_def strings_Split_Join)
  with assms(2) have "q \<in> set (prefixes_of_parts [[]] es)"
    by (simp add: slash_prefixes_parts)
  from prefixes_of_parts_elems [OF this] obtain j where
    j: "0 < j" "j \<le> length es" "q = strings_Join ([[]] @ take j es) ''/''"
    by blast
  from j(1) False have ne: "take j es \<noteq> []" by simp
  then have "q = rooted_path (take j es)"
    using j(3) by (simp add: rooted_path_def strings_Join_Cons)
  moreover from assms(1) have "list_all plain_name (take j es)"
    by (auto simp: list_all_iff dest: in_set_takeD)
  ultimately show ?thesis using ne by blast
qed

text \<open>
  Claim C10, amended. \<^verbatim>\<open>MkdirAll(name, perm)\<close> calls \<^verbatim>\<open>Mkdir\<close> once for each non-empty
  slash-separated prefix of \<open>name\<close>, from the shortest to the longest, and the path it
  passes is not the prefix as it is written but \<^verbatim>\<open>path.Join("/", prefix)\<close>: the prefix below
  the root, cleaned. It goes on after a success and after an error of which \<^verbatim>\<open>os.IsExist\<close>
  holds, returns the first error of another kind at once, and returns \<^verbatim>\<open>nil\<close> at the end.
  For a name that is a rooted path of plain names the paths passed are the prefixes
  themselves.
\<close>

theorem MkdirAll_prefixes:
  "MkdirAll filer name perm s =
     Mkdir_each filer perm (map (\<lambda>q. path_Join [''/'', q]) (slash_prefixes name)) s
   \<and> (list_all plain_name es \<longrightarrow>
        map (\<lambda>q. path_Join [''/'', q]) (slash_prefixes (rooted_path es)) = slash_prefixes (rooted_path es))"
proof (intro conjI impI)
  show "MkdirAll filer name perm s =
     Mkdir_each filer perm (map (\<lambda>q. path_Join [''/'', q]) (slash_prefixes name)) s"
    by (rule MkdirAll_Mkdir_each)
next
  assume plain: "list_all plain_name es"
  show "map (\<lambda>q. path_Join [''/'', q]) (slash_prefixes (rooted_path es)) = slash_prefixes (rooted_path es)"
  proof (rule map_idI)
    fix q
    assume "q \<in> set (slash_prefixes (rooted_path es))"
    from slash_prefixes_rooted_path [OF plain this] obtain xs where
      "list_all plain_name xs" "xs \<noteq> []" "q = rooted_path xs"
      by blast
    then show "path_Join [''/'', q] = q"
      by (simp add: path_Join_root_plain)
  qed
qed

theorem MkdirAll_prefixes_witness:
  "MkdirAll (New (logged (memfs False))) ''/a/b/c/d'' 493 ([([''a''], True)], []) =
     (None,
      ([([''a''], True), ([''a'', ''b''], True), ([''a'', ''b'', ''c''], True),
        ([''a'', ''b'', ''c'', ''d''], True)],
       [Called_Mkdir ''/a'' 493 (Some (ErrExist ''/a'')), Called_Mkdir ''/a/b'' 493 None,
        Called_Mkdir ''/a/b/c'' 493 None, Called_Mkdir ''/a/b/c/d'' 493 None]))
   \<and> MkdirAll (New (logged (memfs False))) ''/file/sub/dir'' 493 ([([''file''], False)], []) =
     (Some (ErrOther ''not a directory''),
      ([([''file''], False)],
       [Called_Mkdir ''/file'' 493 (Some (ErrExist ''/file'')),
        Called_Mkdir ''/file/sub'' 493 (Some (ErrOther ''not a directory''))]))
   \<and> map (\<lambda>q. path_Join [''/'', q]) (slash_prefixes (rooted_path [''a'', ''b'', ''c'', ''d''])) =
       slash_prefixes (rooted_path [''a'', ''b'', ''c'', ''d''])"
proof -
  let ?F = "New (logged (memfs False))"
  have plain: "list_all plain_name [''a'', ''b'', ''c'', ''d'']"
    by code_simp
  have each1: "Mkdir_each ?F 493 (map (\<lambda>q. path_Join [''/'', q]) (slash_prefixes ''/a/b/c/d''))
       ([([''a''], True)], []) =
     (None,
      ([([''a''], True), ([''a'', ''b''], True), ([''a'', ''b'', ''c''], True),
        ([''a'', ''b'', ''c'', ''d''], True)],
       [Called_Mkdir ''/a'' 493 (Some (ErrExist ''/a'')), Called_Mkdir ''/a/b'' 493 None,
        Called_Mkdir ''/a/b/c'' 493 None, Called_Mkdir ''/a/b/c/d'' 493 None]))"
    by code_simp
  have each2: "Mkdir_each ?F 493 (map (\<lambda>q. path_Join [''/'', q]) (slash_prefixes ''/file/sub/dir''))
       ([([''file''], False)], []) =
     (Some (ErrOther ''not a directory''),
      ([([''file''], False)],
       [Called_Mkdir ''/file'' 493 (Some (ErrExist ''/file'')),
        Called_Mkdir ''/file/sub'' 493 (Some (ErrOther ''not a directory''))]))"
    by code_simp
  from MkdirAll_prefixes [of ?F "''/a/b/c/d''" 493 "([([''a''], True)], [])" "[''a'', ''b'', ''c'', ''d'']"]
    MkdirAll_prefixes [of ?F "''/file/sub/dir''" 493 "([([''file''], False)], [])" "[]"]
    plain each1 each2
  show ?thesis by simp
qed

text \<open>
  Claim C10 as it is written has \<^verbatim>\<open>Mkdir\<close> called on the prefixes themselves. For the name
  \<^verbatim>\<open>/a/./b\<close> the prefixes are \<^verbatim>\<open>/a\<close>, \<^verbatim>\<open>/a/.\<close> and \<^verbatim>\<open>/a/./b\<close>, and \<^verbatim>\<open>Mkdir\<close> is called on
  \<^verbatim>\<open>/a\<close> twice and then on \<^verbatim>\<open>/a/b\<close>; for \<^verbatim>\<open>a/b\<close> the prefixes are \<^verbatim>\<open>a\<close> and \<^verbatim>\<open>a/b\<close>, and
  \<^verbatim>\<open>Mkdir\<close> is called on \<^verbatim>\<open>/a\<close> and \<^verbatim>\<open>/a/b\<close> (line 52).
\<close>

theorem MkdirAll_cleaned_paths_counterexample:
  "slash_prefixes ''/a/./b'' = [''/a'', ''/a/.'', ''/a/./b'']
   \<and> MkdirAll (New (logged (memfs False))) ''/a/./b'' 493 ([], []) =
     (None,
      ([([''a''], True), ([''a'', ''b''], True)],
       [Called_Mkdir ''/a'' 493 None, Called_Mkdir ''/a'' 493 (Some (ErrExist ''/a'')),
        Called_Mkdir ''/a/b'' 493 None]))
   \<and> slash_prefixes ''a/b'' = [''a'', ''a/b'']
   \<and> MkdirAll (New (logged (memfs False))) ''a/b'' 493 ([], []) =
     (None,
      ([([''a''], True), ([''a'', ''b''], True)],
       [Called_Mkdir ''/a'' 493 None, Called_Mkdir ''/a/b'' 493 None]))"
  by code_simp

end
